theory Spec2Isabelle
  imports Main
begin

section \<open>JavaScript strings\<close>

text \<open>
  A source string is a sequence of code units; the embedding covers the code units
  below 256 (one \<^typ>\<open>char\<close> each).  In that range the white space of
  \<^verbatim>\<open>String.prototype.trim\<close> and of the class \<^verbatim>\<open>\s\<close> is TAB, LF, VT, FF, CR, SP
  and NBSP, and the line terminators (the characters \<^verbatim>\<open>.\<close> refuses) are LF and CR.
\<close>

definition is_space :: "char \<Rightarrow> bool" where
  "is_space ch = (ch \<in> set [CHR 0x09, CHR 0x0A, CHR 0x0B, CHR 0x0C, CHR 0x0D, CHR 0x20, CHR 0xA0])"

definition is_line_terminator :: "char \<Rightarrow> bool" where
  "is_line_terminator ch = (ch = CHR 0x0A \<or> ch = CHR 0x0D)"

definition trim :: "string \<Rightarrow> string" where
  "trim s = rev (dropWhile is_space (rev (dropWhile is_space s)))"

fun startsWith :: "string \<Rightarrow> string \<Rightarrow> bool" where
  "startsWith s [] = True"
| "startsWith [] (y # t) = False"
| "startsWith (x # s) (y # t) = (x = y \<and> startsWith s t)"

fun includesStr :: "string \<Rightarrow> string \<Rightarrow> bool" where
  "includesStr [] t = (t = [])"
| "includesStr (x # s) t = (startsWith (x # s) t \<or> includesStr s t)"

text \<open>\<^verbatim>\<open>s.split(c)\<close> for a one-character separator: never the empty list.\<close>

fun split_char :: "char \<Rightarrow> string \<Rightarrow> string list" where
  "split_char sep [] = [[]]"
| "split_char sep (x # xs) =
     (if x = sep then [] # split_char sep xs
      else (case split_char sep xs of [] \<Rightarrow> [[x]] | w # ws \<Rightarrow> (x # w) # ws))"

text \<open>\<^verbatim>\<open>s.split(/\s+/)\<close>: the pieces between maximal runs of white space.\<close>

function split_ws :: "string \<Rightarrow> string list" where
  "split_ws s =
     (case dropWhile (\<lambda>ch. \<not> is_space ch) s of
        [] \<Rightarrow> [s]
      | x # r \<Rightarrow> takeWhile (\<lambda>ch. \<not> is_space ch) s # split_ws (dropWhile is_space r))"
  by pat_completeness auto
termination
proof (relation "measure length")
  show "wf (measure length)" by simp
next
  fix s :: string and x r
  assume h: "dropWhile (\<lambda>ch. \<not> is_space ch) s = x # r"
  have "length (dropWhile is_space r) \<le> length r"
    by (rule length_dropWhile_le)
  moreover have "length (x # r) \<le> length s"
    using length_dropWhile_le [of "\<lambda>ch. \<not> is_space ch" s] h by simp
  ultimately show "(dropWhile is_space r, s) \<in> measure length" by simp
qed

declare split_ws.simps [simp del]

text \<open>
  \<^verbatim>\<open>toLowerCase\<close> on the code units below 256: the letters A to Z and the
  accented capitals U+00C0 to U+00DE (without the multiplication sign U+00D7) move up by 32.
\<close>

definition lower_char :: "char \<Rightarrow> char" where
  "lower_char ch =
     (let n = of_char ch :: nat in
      if (65 \<le> n \<and> n \<le> 90) \<or> (192 \<le> n \<and> n \<le> 222 \<and> n \<noteq> 215) then char_of (n + 32) else ch)"

definition toLowerCase :: "string \<Rightarrow> string" where
  "toLowerCase s = map lower_char s"

text \<open>\<^verbatim>\<open>toUpperCase\<close>, which the source applies to lower-case ASCII letters only.\<close>

definition upper_char :: "char \<Rightarrow> char" where
  "upper_char ch =
     (let n = of_char ch :: nat in if 97 \<le> n \<and> n \<le> 122 then char_of (n - 32) else ch)"

section \<open>Regular expressions\<close>

text \<open>
  The regular expressions of the source are sequences of the atoms below; every
  quantifier in them sits on a single character class.  \<open>rx_run\<close> is the backtracking
  matcher of the language: it tries the alternatives in the order the specification of
  the language gives (greedy quantifiers longest first, lazy ones shortest first, the
  left branch of \<^verbatim>\<open>|\<close> first) and returns the first success, with the captures and the
  rest of the input.  A capture is kept under its group number; while the group is
  open the entry holds the input at its opening parenthesis.
\<close>

datatype atom =
    Ch char
  | Cl "char \<Rightarrow> bool"
  | Star "char \<Rightarrow> bool"
  | Plus "char \<Rightarrow> bool"
  | Lazy "char \<Rightarrow> bool"
  | Opn nat
  | Cls nat
  | Alt "atom list" "atom list"
  | Ahead "atom list"
  | Eos

type_synonym caps = "(nat \<times> string) list"

definition close_group :: "nat \<Rightarrow> string \<Rightarrow> caps \<Rightarrow> caps" where
  "close_group k s c =
     (case map_of c k of
        None \<Rightarrow> c
      | Some s0 \<Rightarrow> (k, take (length s0 - length s) s0) # c)"

function rx_run :: "atom list \<Rightarrow> string \<Rightarrow> caps \<Rightarrow> (caps \<times> string) option" where
  "rx_run [] s c = Some (c, s)"
| "rx_run (Ch a # ps) [] c = None"
| "rx_run (Ch a # ps) (x # s) c = (if x = a then rx_run ps s c else None)"
| "rx_run (Cl P # ps) [] c = None"
| "rx_run (Cl P # ps) (x # s) c = (if P x then rx_run ps s c else None)"
| "rx_run (Star P # ps) [] c = rx_run ps [] c"
| "rx_run (Star P # ps) (x # s) c =
     (if P x
      then (case rx_run (Star P # ps) s c of
              Some r \<Rightarrow> Some r
            | None \<Rightarrow> rx_run ps (x # s) c)
      else rx_run ps (x # s) c)"
| "rx_run (Plus P # ps) [] c = None"
| "rx_run (Plus P # ps) (x # s) c = (if P x then rx_run (Star P # ps) s c else None)"
| "rx_run (Lazy P # ps) [] c = rx_run ps [] c"
| "rx_run (Lazy P # ps) (x # s) c =
     (case rx_run ps (x # s) c of
        Some r \<Rightarrow> Some r
      | None \<Rightarrow> if P x then rx_run (Lazy P # ps) s c else None)"
| "rx_run (Opn k # ps) s c = rx_run ps s ((k, s) # c)"
| "rx_run (Cls k # ps) s c = rx_run ps s (close_group k s c)"
| "rx_run (Alt p q # ps) s c =
     (case rx_run (p @ ps) s c of
        Some r \<Rightarrow> Some r
      | None \<Rightarrow> rx_run (q @ ps) s c)"
| "rx_run (Ahead p # ps) s c =
     (case rx_run p s c of
        Some (c', r) \<Rightarrow> rx_run ps s c'
      | None \<Rightarrow> None)"
| "rx_run (Eos # ps) [] c = rx_run ps [] c"
| "rx_run (Eos # ps) (x # s) c = None"
  by pat_completeness auto
termination
  by (relation "measures [\<lambda>(ps, s, c). length s, \<lambda>(ps, s, c). size_list size ps]")
     auto

text \<open>A string literal inside a regular expression.\<close>

definition lit :: "string \<Rightarrow> atom list" where
  "lit s = map Ch s"

text \<open>
  \<open>rx_search\<close> is one call of \<^verbatim>\<open>exec\<close> (or a \<^verbatim>\<open>match\<close> without the \<^verbatim>\<open>g\<close> flag) on the
  input that is left: the match at the leftmost position that has one.  It returns the
  text skipped before the match, the captures and the input after the match.  The end
  of the input is a position too.
\<close>

fun rx_search :: "atom list \<Rightarrow> string \<Rightarrow> (string \<times> caps \<times> string) option" where
  "rx_search ps [] = (case rx_run ps [] [] of Some (c, r) \<Rightarrow> Some ([], c, r) | None \<Rightarrow> None)"
| "rx_search ps (x # s) =
     (case rx_run ps (x # s) [] of
        Some (c, r) \<Rightarrow> Some ([], c, r)
      | None \<Rightarrow> (case rx_search ps s of
                   Some (pre, c, r) \<Rightarrow> Some (x # pre, c, r)
                 | None \<Rightarrow> None))"

text \<open>
  \<open>rx_scan\<close> is the iteration of a \<^verbatim>\<open>g\<close> regular expression over a string, as
  \<^verbatim>\<open>while ((match = re.exec(s)) !== null)\<close>, \<^verbatim>\<open>s.match(re)\<close> and \<^verbatim>\<open>s.replace(re, ...)\<close>
  do it: the successive matches, each with the text between it and the match before,
  and the text after the last match.  Every regular expression of the source needs at
  least one character to match (\<open>rx_run_progress\<close> below), so that each round consumes
  input; the guard of the recursion is the step \<^verbatim>\<open>match\<close> and \<^verbatim>\<open>replace\<close> take after an
  empty match and is never reached by them.
\<close>

fun skip_unit :: "char \<Rightarrow> (string \<times> caps) list \<times> string \<Rightarrow> (string \<times> caps) list \<times> string" where
  "skip_unit x ([], rest) = ([], x # rest)"
| "skip_unit x ((pre, c) # ms, rest) = ((x # pre, c) # ms, rest)"

function rx_scan :: "atom list \<Rightarrow> string \<Rightarrow> (string \<times> caps) list \<times> string" where
  "rx_scan ps s =
     (case rx_search ps s of
        None \<Rightarrow> ([], s)
      | Some (pre, c, r) \<Rightarrow>
          if length r < length s
          then (case rx_scan ps r of (ms, rest) \<Rightarrow> ((pre, c) # ms, rest))
          else (case s of
                  [] \<Rightarrow> ([(pre, c)], [])
                | x # s' \<Rightarrow> (case skip_unit x (rx_scan ps s') of (ms, rest) \<Rightarrow> ((pre, c) # ms, rest))))"
  by pat_completeness auto
termination
  by (relation "measure (\<lambda>(ps, s). length s)") auto

declare rx_scan.simps [simp del]

text \<open>
  A regular expression that starts, after opening parentheses, with a character, a class
  or a \<^verbatim>\<open>+\<close> quantifier: it has no empty match.
\<close>

fun consumes :: "atom list \<Rightarrow> bool" where
  "consumes (Ch a # ps) = True"
| "consumes (Cl P # ps) = True"
| "consumes (Plus P # ps) = True"
| "consumes (Opn k # ps) = consumes ps"
| "consumes ps = False"

definition cap :: "caps \<Rightarrow> nat \<Rightarrow> string" where
  "cap c k = (case map_of c k of None \<Rightarrow> [] | Some t \<Rightarrow> t)"


text \<open>\<^verbatim>\<open>s.replace(pat, rep)\<close> for a string pattern: the first occurrence only.\<close>

fun replace_first :: "string \<Rightarrow> string \<Rightarrow> string \<Rightarrow> string" where
  "replace_first [] pat rep = (if pat = [] then rep else [])"
| "replace_first (x # s) pat rep =
     (if startsWith (x # s) pat then rep @ drop (length pat) (x # s)
      else x # replace_first s pat rep)"

text \<open>An alternation of several branches, \<^verbatim>\<open>a|b|c\<close>, nests to the right.\<close>

fun alts :: "atom list list \<Rightarrow> atom list" where
  "alts [] = []"
| "alts [a] = a"
| "alts (a # b # bs) = [Alt a (alts (b # bs))]"

definition dquote :: char where "dquote = CHR 0x22"
definition squote :: char where "squote = CHR 0x27"

definition is_quote :: "char \<Rightarrow> bool" where
  "is_quote ch = (ch = dquote \<or> ch = squote)"

definition is_alpha :: "char \<Rightarrow> bool" where
  "is_alpha ch = (let n = of_char ch :: nat in (65 \<le> n \<and> n \<le> 90) \<or> (97 \<le> n \<and> n \<le> 122))"

definition is_digit :: "char \<Rightarrow> bool" where
  "is_digit ch = (let n = of_char ch :: nat in 48 \<le> n \<and> n \<le> 57)"

section \<open>The syntax validator\<close>

datatype fileType = jsx | tsx | js | ts | php | html | vue

text \<open>The field \<^verbatim>\<open>name\<close> of \<^verbatim>\<open>FILE_TYPES[fileType]\<close>.\<close>

fun config_name :: "fileType \<Rightarrow> string" where
  "config_name jsx = ''JSX''"
| "config_name tsx = ''TSX''"
| "config_name js = ''JavaScript''"
| "config_name ts = ''TypeScript''"
| "config_name php = ''PHP''"
| "config_name html = ''HTML''"
| "config_name vue = ''Vue''"

datatype category = Comment | Attribute | Structure | Style

record diagnostic =
  line :: nat
  message :: string
  type :: category
  suggestion :: "string option"

definition diag :: "nat \<Rightarrow> string \<Rightarrow> category \<Rightarrow> diagnostic" where
  "diag n m t = \<lparr>line = n, message = m, type = t, suggestion = None\<rparr>"

text \<open>\<^verbatim>\<open>/class=["'][^"']*["']/\<close>; group 0 is the whole match.\<close>

definition classAttrRegex :: "atom list" where
  "classAttrRegex =
     [Opn 0] @ lit ''class='' @ [Cl is_quote, Star (\<lambda>ch. \<not> is_quote ch), Cl is_quote, Cls 0]"

text \<open>\<^verbatim>\<open>/<[a-zA-Z][^>]*[^\/]>/g\<close>, \<^verbatim>\<open>/<\/[a-zA-Z][^>]*>/g\<close> and \<^verbatim>\<open>/<[a-zA-Z][^>]*\/>/g\<close>.\<close>

definition openTagRegex :: "atom list" where
  "openTagRegex =
     [Ch CHR ''<'', Cl is_alpha, Star (\<lambda>ch. ch \<noteq> CHR ''>''), Cl (\<lambda>ch. ch \<noteq> CHR ''/''), Ch CHR ''>'']"

definition closeTagRegex :: "atom list" where
  "closeTagRegex =
     [Ch CHR ''<'', Ch CHR ''/'', Cl is_alpha, Star (\<lambda>ch. ch \<noteq> CHR ''>''), Ch CHR ''>'']"

definition selfClosingRegex :: "atom list" where
  "selfClosingRegex =
     [Ch CHR ''<'', Cl is_alpha, Star (\<lambda>ch. ch \<noteq> CHR ''>''), Ch CHR ''/'', Ch CHR ''>'']"

text \<open>
  \<^verbatim>\<open>/^(const|let|var|return|import|export|throw)\s+.+[^;{}\[\]]$/\<close>.  The anchor
  \<^verbatim>\<open>^\<close> is kept by running the expression at the start of the string only.
\<close>

definition statementRegex :: "atom list" where
  "statementRegex =
     [Opn 1] @
     alts [lit ''const'', lit ''let'', lit ''var'', lit ''return'', lit ''import'',
           lit ''export'', lit ''throw''] @
     [Cls 1, Plus is_space, Plus (\<lambda>ch. \<not> is_line_terminator ch),
      Cl (\<lambda>ch. ch \<notin> set '';{}[]''), Eos]"

definition match_count :: "atom list \<Rightarrow> string \<Rightarrow> nat" where
  "match_count ps s = length (fst (rx_scan ps s))"

definition wrongEvents :: "string list" where
  "wrongEvents = [''onclick='', ''onchange='', ''onsubmit='']"

definition script_like :: "fileType \<Rightarrow> bool" where
  "script_like ft = (ft = jsx \<or> ft = tsx \<or> ft = js \<or> ft = ts)"

definition component :: "fileType \<Rightarrow> bool" where
  "component ft = (ft = jsx \<or> ft = tsx)"

text \<open>
  \<^verbatim>\<open>const match = line.match(/class=["'][^"']*["']/); if (match) { errors.push(...) }\<close>
\<close>

definition class_attr_error :: "fileType \<Rightarrow> nat \<Rightarrow> string \<Rightarrow> diagnostic list" where
  "class_attr_error fileType lineNum ln =
     (case rx_search classAttrRegex ln of
        None \<Rightarrow> []
      | Some m \<Rightarrow>
          [\<lparr>line = lineNum,
            message = ''Use '' @ [squote] @ ''className'' @ [squote] @ '' instead of ''
                      @ [squote] @ ''class'' @ [squote] @ '' in '' @ config_name fileType,
            type = Attribute,
            suggestion = Some (replace_first (cap (fst (snd m)) 0) ''class='' ''className='')\<rparr>])"

text \<open>The errors one round of the \<^verbatim>\<open>forEach\<close> over the lines pushes, in the order of the checks.\<close>

definition line_errors :: "fileType \<Rightarrow> nat \<Rightarrow> string \<Rightarrow> diagnostic list" where
  "line_errors fileType lineNum ln =
     (let trimmed = trim ln in
      (if script_like fileType \<and> startsWith trimmed ''#'' \<and> \<not> startsWith trimmed ''#!/''
       then [diag lineNum (''Wrong comment syntax: Use '' @ [squote] @ ''//'' @ [squote] @ '' or ''
                            @ [squote] @ ''/* */'' @ [squote] @ '' instead of '' @ [squote] @ ''#''
                            @ [squote]) Comment]
       else []) @
      (if script_like fileType \<and> includesStr trimmed ''<!--''
       then [diag lineNum (''HTML comment syntax not allowed in '' @ config_name fileType) Comment]
       else []) @
      (if fileType = html \<and>
          (startsWith trimmed ''//'' \<or> (startsWith trimmed ''/*'' \<and> \<not> includesStr trimmed ''<script''))
       then [diag lineNum ''JavaScript comment syntax not allowed in HTML (use <!-- -->)'' Comment]
       else []) @
      (if component fileType \<and> includesStr ln ''class='' \<and> \<not> includesStr ln ''className=''
       then class_attr_error fileType lineNum ln
       else []) @
      (if component fileType \<and> includesStr ln ''for=''
       then [diag lineNum (''Use '' @ [squote] @ ''htmlFor'' @ [squote] @ '' instead of ''
                            @ [squote] @ ''for'' @ [squote] @ '' in '' @ config_name fileType) Attribute]
       else []) @
      (if (fileType = html \<or> fileType = php) \<and> includesStr ln ''className=''
       then [diag lineNum (''Use '' @ [squote] @ ''class'' @ [squote] @ '' instead of ''
                            @ [squote] @ ''className'' @ [squote] @ '' in '' @ config_name fileType) Attribute]
       else []) @
      (if component fileType \<and> includesStr ln (''style='' @ [dquote])
       then [diag lineNum (''Style should be an object in JSX: style={{...}} not style=''
                            @ [dquote] @ ''...'' @ [dquote]) Attribute]
       else []) @
      (if component fileType
       then concat (map (\<lambda>event.
              if includesStr (toLowerCase ln) event
              then (let correct = map upper_char (take 1 (drop 2 event)) @ drop 3 event in
                    [diag lineNum (''Use camelCase: '' @ [squote] @ correct @ [squote]
                                   @ '' instead of '' @ [squote] @ event @ [squote]) Attribute])
              else []) wrongEvents)
       else []))"

text \<open>The warnings of the same round; \<open>code\<close> is the whole source text.\<close>

definition line_warnings :: "string \<Rightarrow> fileType \<Rightarrow> nat \<Rightarrow> string \<Rightarrow> diagnostic list" where
  "line_warnings code fileType lineNum ln =
     (let trimmed = trim ln in
      (if fileType = php \<and> includesStr trimmed ''<!--'' \<and> \<not> includesStr trimmed ''?>''
       then [diag lineNum (''HTML comment in PHP file - make sure it'' @ [squote]
                            @ ''s in HTML context'') Comment]
       else []) @
      (if fileType = jsx \<or> fileType = tsx \<or> fileType = html \<or> fileType = vue
       then (let openTags = match_count openTagRegex ln;
                 closeTags = match_count closeTagRegex ln;
                 selfClosing = match_count selfClosingRegex ln
             in if openTags > closeTags + selfClosing \<and> \<not> includesStr ln ''>'' \<and> includesStr ln ''<''
                then [diag lineNum ''Possible unclosed tag or multi-line element'' Structure]
                else [])
       else []) @
      (if script_like fileType \<and> trimmed \<noteq> [] \<and> \<not> startsWith trimmed ''//''
          \<and> \<not> startsWith trimmed ''/*''
       then (if rx_run statementRegex trimmed [] \<noteq> None \<and> \<not> includesStr trimmed ''=>''
             then [diag lineNum ''Consider adding semicolon at end of statement'' Style]
             else [])
       else []) @
      (if fileType = php \<and> \<not> includesStr code ''<?php'' \<and> length (trim code) > 0
       then [diag 1 ''PHP file should start with <?php tag'' Structure]
       else []))"

record validation =
  errors :: "diagnostic list"
  warnings :: "diagnostic list"

definition validateSyntax :: "string \<Rightarrow> fileType \<Rightarrow> validation" where
  "validateSyntax code fileType =
     (let lines = split_char CHR 0x0A code;
          numbered = zip [1 ..< Suc (length lines)] lines
      in \<lparr>errors = concat (map (\<lambda>(lineNum, ln). line_errors fileType lineNum ln) numbered),
          warnings = concat (map (\<lambda>(lineNum, ln). line_warnings code fileType lineNum ln) numbered)\<rparr>)"

section \<open>The class usage extractor\<close>

text \<open>
  \<^verbatim>\<open>/className=["']([^"']+)["']/g\<close>, \<^verbatim>\<open>/className=\{['"]([^'"]+)['"]\}/g\<close> and
  \<^verbatim>\<open>/className=\{[^}]*['"]([^'"]+)['"]/g\<close>.
\<close>

definition stringRegex :: "atom list" where
  "stringRegex =
     lit ''className='' @ [Cl is_quote, Opn 1, Plus (\<lambda>ch. \<not> is_quote ch), Cls 1, Cl is_quote]"

definition templateRegex :: "atom list" where
  "templateRegex =
     lit ''className={'' @
     [Cl is_quote, Opn 1, Plus (\<lambda>ch. \<not> is_quote ch), Cls 1, Cl is_quote, Ch CHR ''}'']"

definition conditionalRegex :: "atom list" where
  "conditionalRegex =
     lit ''className={'' @
     [Star (\<lambda>ch. ch \<noteq> CHR ''}''), Cl is_quote, Opn 1, Plus (\<lambda>ch. \<not> is_quote ch), Cls 1,
      Cl is_quote]"

text \<open>A \<^verbatim>\<open>Set\<close> of strings, in insertion order.\<close>

definition set_add :: "string list \<Rightarrow> string \<Rightarrow> string list" where
  "set_add xs x = (if x \<in> set xs then xs else xs @ [x])"

text \<open>\<^verbatim>\<open>match[1].split(/\s+/).forEach(cls => cls && classes.add(cls))\<close>\<close>

definition add_classes :: "string list \<Rightarrow> string \<Rightarrow> string list" where
  "add_classes classes m1 =
     foldl (\<lambda>acc cls. if cls \<noteq> [] then set_add acc cls else acc) classes (split_ws m1)"

definition scan_classes :: "atom list \<Rightarrow> string \<Rightarrow> string list \<Rightarrow> string list" where
  "scan_classes re jsxCode classes =
     foldl add_classes classes (map (\<lambda>(pre, c). cap c 1) (fst (rx_scan re jsxCode)))"

definition extractClassNames :: "string \<Rightarrow> string list" where
  "extractClassNames jsxCode =
     scan_classes conditionalRegex jsxCode
       (scan_classes templateRegex jsxCode
          (scan_classes stringRegex jsxCode []))"


section \<open>JavaScript objects\<close>

text \<open>
  An object created by \<^verbatim>\<open>{}\<close> is the list of its own properties in the order of their
  creation.  \<^verbatim>\<open>Object.keys\<close> lists the keys that are array indices first (the canonical
  decimal numerals below \<open>2\<^sup>3\<^sup>2 - 1\<close>), in ascending order, and the other keys after
  them in the order of creation.
\<close>

type_synonym 'v jsobj = "(string \<times> 'v) list"

definition int_of_string :: "string \<Rightarrow> int" where
  "int_of_string s = foldl (\<lambda>n ch. 10 * n + (of_char ch - 48)) 0 s"

definition is_array_index :: "string \<Rightarrow> bool" where
  "is_array_index k =
     (k \<noteq> [] \<and> list_all is_digit k \<and> (k = ''0'' \<or> hd k \<noteq> CHR ''0'')
      \<and> int_of_string k < 4294967295)"

definition own_keys :: "'v jsobj \<Rightarrow> string list" where
  "own_keys obj =
     sort_key int_of_string (filter is_array_index (map fst obj)) @
     filter (\<lambda>k. \<not> is_array_index k) (map fst obj)"

definition has_own :: "'v jsobj \<Rightarrow> string \<Rightarrow> bool" where
  "has_own obj k = (k \<in> set (map fst obj))"

definition get_own :: "'v jsobj \<Rightarrow> string \<Rightarrow> 'v option" where
  "get_own obj k = map_of obj k"

fun put :: "'v jsobj \<Rightarrow> string \<Rightarrow> 'v \<Rightarrow> 'v jsobj" where
  "put [] k v = [(k, v)]"
| "put ((k', v') # obj) k v = (if k' = k then (k, v) # obj else (k', v') # put obj k v)"

definition delete :: "'v jsobj \<Rightarrow> string \<Rightarrow> 'v jsobj" where
  "delete obj k = filter (\<lambda>(k', v). k' \<noteq> k) obj"

text \<open>
  A property that is not an own property is looked up in \<^verbatim>\<open>Object.prototype\<close>.  The
  source reads and writes \<^verbatim>\<open>grouped[selector]\<close> for selector texts of the input, so the
  members of that prototype are part of what it does.  The part of the host that the
  optimizer can change, and that changes what it does, is:
  \<^item> \<open>polluted\<close>: the names to which a string has been assigned on
    \<^verbatim>\<open>Object.prototype\<close> itself (through the selector text \<^verbatim>\<open>__proto__\<close>);
  \<^item> \<open>keys_lost\<close>: whether \<^verbatim>\<open>Object.keys\<close> has been overwritten by a string (through
    the selector \<^verbatim>\<open>constructor\<close> and the property \<^verbatim>\<open>keys\<close>).
  One polluted name matters beyond the lookup of selectors: \<^verbatim>\<open>return\<close>, the method that
  an array destructuring looks up on the iterator it closes; the iterator inherits it
  from \<^verbatim>\<open>Object.prototype\<close>.
  The module is an ECMAScript module, hence strict code: an assignment that fails throws
  a \<^verbatim>\<open>TypeError\<close>.
\<close>

record host =
  polluted :: "string list"
  keys_lost :: bool

definition fresh_host :: host where
  "fresh_host = \<lparr>polluted = [], keys_lost = False\<rparr>"

datatype error = TypeError

text \<open>The function-valued members of \<^verbatim>\<open>Object.prototype\<close>.\<close>

definition proto_methods :: "string list" where
  "proto_methods =
     [''constructor'', ''__defineGetter__'', ''__defineSetter__'', ''hasOwnProperty'',
      ''__lookupGetter__'', ''__lookupSetter__'', ''isPrototypeOf'', ''propertyIsEnumerable'',
      ''toString'', ''valueOf'', ''toLocaleString'']"

text \<open>
  What \<^verbatim>\<open>grouped[selector]\<close> evaluates to: an own property (an object of declarations),
  a string assigned to \<^verbatim>\<open>Object.prototype\<close> earlier, \<^verbatim>\<open>Object.prototype\<close> itself (the
  accessor \<^verbatim>\<open>__proto__\<close>), a built-in function, or \<^verbatim>\<open>undefined\<close>.
\<close>

datatype target = Own | Primitive | ObjectPrototype | BuiltinFunction | Undefined

definition resolve :: "host \<Rightarrow> 'v jsobj \<Rightarrow> string \<Rightarrow> target" where
  "resolve h obj k =
     (if has_own obj k then Own
      else if k \<in> set (polluted h) then Primitive
      else if k = ''__proto__'' then ObjectPrototype
      else if k \<in> set proto_methods then BuiltinFunction
      else Undefined)"

section \<open>The CSS parser\<close>

record cssRule =
  selector :: string
  declarations :: string

record mediaRule =
  query :: string
  content :: string

record parsed =
  rules :: "cssRule list"
  mediaRules :: "mediaRule list"

text \<open>\<^verbatim>\<open>/\/\*[\s\S]*?\*\//g\<close>\<close>

definition commentRegex :: "atom list" where
  "commentRegex = [Ch CHR ''/'', Ch CHR ''*'', Lazy (\<lambda>ch. True), Ch CHR ''*'', Ch CHR ''/'']"

text \<open>\<^verbatim>\<open>/@media\s*([^{]+)\s*\{([\s\S]*?)\}(?=\s*(@media|$))/g\<close>\<close>

definition mediaRegex :: "atom list" where
  "mediaRegex =
     lit ''@media'' @
     [Star is_space, Opn 1, Plus (\<lambda>ch. ch \<noteq> CHR ''{''), Cls 1, Star is_space, Ch CHR ''{'',
      Opn 2, Lazy (\<lambda>ch. True), Cls 2, Ch CHR ''}'',
      Ahead ([Star is_space, Opn 3] @ alts [lit ''@media'', [Eos]] @ [Cls 3])]"

text \<open>\<^verbatim>\<open>/([^{]+)\{([^}]+)\}/g\<close>\<close>

definition ruleRegex :: "atom list" where
  "ruleRegex =
     [Opn 1, Plus (\<lambda>ch. ch \<noteq> CHR ''{''), Cls 1, Ch CHR ''{'',
      Opn 2, Plus (\<lambda>ch. ch \<noteq> CHR ''}''), Cls 2, Ch CHR ''}'']"

text \<open>\<^verbatim>\<open>s.replace(re, '')\<close> for a \<^verbatim>\<open>g\<close> regular expression: what lies between the matches.\<close>

definition remove_all :: "atom list \<Rightarrow> string \<Rightarrow> string" where
  "remove_all re s = (case rx_scan re s of (ms, rest) \<Rightarrow> concat (map fst ms) @ rest)"

text \<open>
  The body of \<^verbatim>\<open>while ((match = ruleRegex.exec(cssText)) !== null)\<close>: the rule it pushes,
  if any.
\<close>

definition rule_of_match :: "caps \<Rightarrow> cssRule list" where
  "rule_of_match c =
     (let selector = trim (cap c 1); declarations = trim (cap c 2)
      in if selector \<noteq> [] \<and> declarations \<noteq> []
         then [\<lparr>selector = selector, declarations = declarations\<rparr>]
         else [])"

definition parseCSSRules :: "string \<Rightarrow> parsed" where
  "parseCSSRules cssText =
     (let cssText1 = remove_all commentRegex cssText;
          mediaRules = map (\<lambda>(pre, c). \<lparr>query = trim (cap c 1), content = cap c 2\<rparr>)
                           (fst (rx_scan mediaRegex cssText1));
          cssText2 = remove_all mediaRegex cssText1;
          rules = concat (map (\<lambda>(pre, c). rule_of_match c) (fst (rx_scan ruleRegex cssText2)))
      in \<lparr>rules = rules, mediaRules = mediaRules\<rparr>)"

section \<open>The CSS optimizer\<close>

type_synonym props = "string jsobj"
type_synonym groups = "props jsobj"

text \<open>
  \<^verbatim>\<open>const [prop, val] = decl.split(':').map(s => s.trim()); if (prop && val) ...\<close>:
  the first two pieces; a missing second piece is \<^verbatim>\<open>undefined\<close>.
\<close>

definition parse_decl :: "string \<Rightarrow> (string \<times> string) option" where
  "parse_decl decl =
     (case map trim (split_char CHR '':'' decl) of
        prop # val # others \<Rightarrow> if prop \<noteq> [] \<and> val \<noteq> [] then Some (prop, val) else None
      | _ \<Rightarrow> None)"

text \<open>
  \<^verbatim>\<open>grouped[selector][prop] = val\<close>.  The property \<^verbatim>\<open>__proto__\<close> is an accessor of
  \<^verbatim>\<open>Object.prototype\<close> that every value below inherits; its setter returns without
  effect and without error when the new value is a string, whatever the receiver is.
  For any other property: on an own object of declarations the assignment creates or
  overwrites the property.  On a string it throws (the receiver of the assignment is
  not an object).  On \<^verbatim>\<open>Object.prototype\<close> it creates or overwrites the member.  On a
  built-in function it throws for the read-only \<^verbatim>\<open>name\<close> and \<^verbatim>\<open>length\<close> (and \<^verbatim>\<open>prototype\<close>
  of \<^verbatim>\<open>Object\<close>) and for the poisoned \<^verbatim>\<open>caller\<close> and \<^verbatim>\<open>arguments\<close>; any other property
  is stored on the function, which the optimizer only notices for \<^verbatim>\<open>Object.keys\<close>.
\<close>

definition assign :: "host \<times> groups \<Rightarrow> string \<Rightarrow> string \<times> string \<Rightarrow> error + host \<times> groups" where
  "assign st sel d =
     (case st of (h, grouped) \<Rightarrow> case d of (prop, val) \<Rightarrow>
      (case resolve h grouped sel of
         Own \<Rightarrow>
           if prop = ''__proto__'' then Inr (h, grouped)
           else (case get_own grouped sel of
                   None \<Rightarrow> Inr (h, grouped)
                 | Some ps \<Rightarrow> Inr (h, put grouped sel (put ps prop val)))
       | Primitive \<Rightarrow>
           if prop = ''__proto__'' then Inr (h, grouped) else Inl TypeError
       | ObjectPrototype \<Rightarrow>
           if prop = ''__proto__'' then Inr (h, grouped)
           else Inr (h\<lparr>polluted := prop # polluted h\<rparr>, grouped)
       | BuiltinFunction \<Rightarrow>
           if prop \<in> set [''name'', ''length'', ''caller'', ''arguments'']
              \<or> (sel = ''constructor'' \<and> prop = ''prototype'')
           then Inl TypeError
           else if sel = ''constructor'' \<and> prop = ''keys''
           then Inr (h\<lparr>keys_lost := True\<rparr>, grouped)
           else Inr (h, grouped)
       | Undefined \<Rightarrow> Inl TypeError))"

text \<open>
  One round of \<^verbatim>\<open>declarations.split(';').forEach(decl => ...)\<close>.  The destructuring
  \<^verbatim>\<open>const [prop, val] = ...\<close> takes two elements from the iterator of the array.  When the
  array has two elements or more, the iterator is not exhausted by that and the
  destructuring closes it, for which it looks up the method \<^verbatim>\<open>return\<close> of the iterator:
  if a string has been put on \<^verbatim>\<open>Object.prototype\<close> under that name, it throws, because a
  string is not callable.
\<close>

definition set_decl :: "host \<times> groups \<Rightarrow> string \<Rightarrow> string \<Rightarrow> error + host \<times> groups" where
  "set_decl st sel decl =
     (case st of (h, grouped) \<Rightarrow>
      if 2 \<le> length (split_char CHR '':'' decl) \<and> ''return'' \<in> set (polluted h)
      then Inl TypeError
      else (case parse_decl decl of
              None \<Rightarrow> Inr st
            | Some d \<Rightarrow> assign st sel d))"

fun set_decls :: "host \<times> groups \<Rightarrow> string \<Rightarrow> string list \<Rightarrow> error + host \<times> groups" where
  "set_decls st sel [] = Inr st"
| "set_decls st sel (decl # ds) =
     (case set_decl st sel decl of Inl e \<Rightarrow> Inl e | Inr st' \<Rightarrow> set_decls st' sel ds)"

text \<open>
  The declarations of a rule that pass \<^verbatim>\<open>if (prop && val)\<close>, in the order of
  \<^verbatim>\<open>declarations.split(';').forEach(...)\<close>: the assignments that the loop makes for the
  rule when it returns.
\<close>

definition rule_decls :: "cssRule \<Rightarrow> (string \<times> string) list" where
  "rule_decls r = List.map_filter parse_decl (split_char CHR '';'' (declarations r))"

text \<open>
  What the assignments of a list of declarations make of an own object of declarations:
  later values overwrite earlier ones in place, new properties go to the end.
\<close>

fun merge_props :: "props \<Rightarrow> (string \<times> string) list \<Rightarrow> props" where
  "merge_props ps [] = ps"
| "merge_props ps ((prop, val) # ds) =
     merge_props (if prop = ''__proto__'' then ps else put ps prop val) ds"

text \<open>No object of declarations in the grouping holds a property twice.\<close>

definition props_distinct :: "groups \<Rightarrow> bool" where
  "props_distinct g = (\<forall>ps \<in> snd ` set g. distinct (map fst ps))"

text \<open>One round of \<^verbatim>\<open>rules.forEach(({ selector, declarations }) => ...)\<close>.\<close>

definition group_rule :: "host \<times> groups \<Rightarrow> cssRule \<Rightarrow> error + host \<times> groups" where
  "group_rule st r =
     (case st of (h, grouped) \<Rightarrow>
      let grouped1 = (if resolve h grouped (selector r) = Undefined
                      then put grouped (selector r) [] else grouped)
      in set_decls (h, grouped1) (selector r) (split_char CHR '';'' (declarations r)))"

fun group_rules :: "host \<times> groups \<Rightarrow> cssRule list \<Rightarrow> error + host \<times> groups" where
  "group_rules st [] = Inr st"
| "group_rules st (r # rs) =
     (case group_rule st r of Inl e \<Rightarrow> Inl e | Inr st' \<Rightarrow> group_rules st' rs)"

text \<open>\<^verbatim>\<open>/\.[a-zA-Z0-9_-]+/g\<close>; group 0 is the whole match.\<close>

definition is_class_char :: "char \<Rightarrow> bool" where
  "is_class_char ch = (is_alpha ch \<or> is_digit ch \<or> ch = CHR ''_'' \<or> ch = CHR ''-'')"

definition classTokenRegex :: "atom list" where
  "classTokenRegex = [Opn 0, Ch CHR ''.'', Plus is_class_char, Cls 0]"

definition class_tokens :: "string \<Rightarrow> string list" where
  "class_tokens sel = map (\<lambda>(pre, c). cap c 0) (fst (rx_scan classTokenRegex sel))"

text \<open>
  The body of \<^verbatim>\<open>Object.keys(grouped).forEach(selector => ...)\<close> under
  \<^verbatim>\<open>if (usedClasses)\<close>; \<^verbatim>\<open>selector.match\<close> is \<^verbatim>\<open>null\<close> when there is no match.
\<close>

definition drop_if_unused :: "string set \<Rightarrow> string \<Rightarrow> groups \<Rightarrow> groups" where
  "drop_if_unused usedClasses sel grouped =
     (let classes = class_tokens sel in
      if classes \<noteq> []
      then (let hasUnused = list_ex (\<lambda>cls. drop 1 cls \<notin> usedClasses) classes in
            if hasUnused \<and> \<not> includesStr sel '':'' then delete grouped sel else grouped)
      else grouped)"

text \<open>The condition under which that body deletes the selector.\<close>

definition droppable :: "string set \<Rightarrow> string \<Rightarrow> bool" where
  "droppable used sel =
     (class_tokens sel \<noteq> [] \<and> list_ex (\<lambda>cls. drop 1 cls \<notin> used) (class_tokens sel)
      \<and> \<not> includesStr sel '':'')"

definition drop_unused :: "string set option \<Rightarrow> groups \<Rightarrow> groups" where
  "drop_unused usedClasses grouped =
     (case usedClasses of
        None \<Rightarrow> grouped
      | Some used \<Rightarrow> fold (drop_if_unused used) (own_keys grouped) grouped)"

definition write_props :: "props \<Rightarrow> string" where
  "write_props ps =
     concat (map (\<lambda>prop. prop @ '':'' @ (case get_own ps prop of None \<Rightarrow> [] | Some val \<Rightarrow> val) @ '';'')
                 (own_keys ps))"

definition write_groups :: "groups \<Rightarrow> string" where
  "write_groups grouped =
     concat (map (\<lambda>sel. sel @ ''{''
                   @ (case get_own grouped sel of None \<Rightarrow> [] | Some ps \<Rightarrow> write_props ps) @ ''}'')
                 (own_keys grouped))"

text \<open>
  Grouping and filtering, which the source does once for the top-level rules and once,
  with the same statements, for the rules of every media block.  \<^verbatim>\<open>Object.keys\<close> is
  called after the grouping whether a set of used classes is given or not.
\<close>

definition group_and_filter ::
  "host \<Rightarrow> cssRule list \<Rightarrow> string set option \<Rightarrow> error + host \<times> groups" where
  "group_and_filter h rs usedClasses =
     (case group_rules (h, []) rs of
        Inl e \<Rightarrow> Inl e
      | Inr (h', grouped) \<Rightarrow>
          if keys_lost h' then Inl TypeError
          else Inr (h', drop_unused usedClasses grouped))"

text \<open>One round of \<^verbatim>\<open>mediaRules.forEach(({ query, content }) => ...)\<close>.\<close>

definition media_block ::
  "string set option \<Rightarrow> host \<times> string \<Rightarrow> mediaRule \<Rightarrow> error + host \<times> string" where
  "media_block usedClasses st m =
     (case st of (h, output) \<Rightarrow>
      (case group_and_filter h (rules (parseCSSRules (content m))) usedClasses of
         Inl e \<Rightarrow> Inl e
       | Inr (h', mediaGrouped) \<Rightarrow>
           if length (own_keys mediaGrouped) > 0
           then Inr (h', output @ ''@media '' @ query m @ ''{'' @ write_groups mediaGrouped @ ''}'')
           else Inr (h', output)))"

fun media_blocks ::
  "string set option \<Rightarrow> host \<times> string \<Rightarrow> mediaRule list \<Rightarrow> error + host \<times> string" where
  "media_blocks usedClasses st [] = Inr st"
| "media_blocks usedClasses st (m # ms) =
     (case media_block usedClasses st m of
        Inl e \<Rightarrow> Inl e
      | Inr st' \<Rightarrow> media_blocks usedClasses st' ms)"

text \<open>The optimizer, started in the host \<open>h\<close>; it returns the host it leaves behind.\<close>

definition optimizeCSS_in :: "host \<Rightarrow> string \<Rightarrow> string set option \<Rightarrow> error + host \<times> string" where
  "optimizeCSS_in h cssText usedClasses =
     (let p = parseCSSRules cssText in
      case group_and_filter h (rules p) usedClasses of
        Inl e \<Rightarrow> Inl e
      | Inr (h', grouped) \<Rightarrow> media_blocks usedClasses (h', write_groups grouped) (mediaRules p))"

text \<open>The optimizer in a page whose built-in objects are untouched.\<close>

definition optimizeCSS :: "string \<Rightarrow> string set option \<Rightarrow> error + string" where
  "optimizeCSS cssText usedClasses =
     (case optimizeCSS_in fresh_host cssText usedClasses of
        Inl e \<Rightarrow> Inl e
      | Inr (h, output) \<Rightarrow> Inr output)"


section \<open>What the parser and the grouping loop guarantee\<close>

text \<open>
  The entries of an object in the order of \<^verbatim>\<open>Object.keys\<close>.
\<close>

definition ordered :: "'v jsobj \<Rightarrow> 'v jsobj" where
  "ordered obj = List.map_filter (\<lambda>k. map_option (Pair k) (get_own obj k)) (own_keys obj)"

text \<open>
  A selector of a parsed rule is trimmed, not empty and without an opening brace; a
  property name or value of a parsed declaration is trimmed, not empty and without colon,
  semicolon and closing brace.
\<close>

definition wf_selector :: "string \<Rightarrow> bool" where
  "wf_selector k = (k \<noteq> [] \<and> trim k = k \<and> CHR ''{'' \<notin> set k)"

definition wf_token :: "string \<Rightarrow> bool" where
  "wf_token t =
     (t \<noteq> [] \<and> trim t = t \<and> CHR '':'' \<notin> set t \<and> CHR '';'' \<notin> set t \<and> CHR ''}'' \<notin> set t)"

definition wf_rule :: "cssRule \<Rightarrow> bool" where
  "wf_rule r = (wf_selector (selector r) \<and> CHR ''}'' \<notin> set (declarations r))"

definition wf_decls :: "(string \<times> string) list \<Rightarrow> bool" where
  "wf_decls ds = (\<forall>d \<in> set ds. wf_token (fst d) \<and> wf_token (snd d))"

definition wf_props :: "props \<Rightarrow> bool" where
  "wf_props ps = (distinct (map fst ps) \<and> ''__proto__'' \<notin> fst ` set ps \<and> wf_decls ps)"

text \<open>
  The keys of a grouping are selectors of parsed rules that did not resolve through the
  prototype when they were entered.
\<close>

definition wf_groups :: "groups \<Rightarrow> bool" where
  "wf_groups g =
     (distinct (map fst g) \<and>
      (\<forall>e \<in> set g. wf_selector (fst e) \<and> fst e \<noteq> ''__proto__'' \<and> fst e \<notin> set proto_methods
                      \<and> wf_props (snd e)))"

text \<open>The assignments of a list of declarations, one after the other.\<close>

fun assign_all :: "host \<times> groups \<Rightarrow> string \<Rightarrow> (string \<times> string) list \<Rightarrow> error + host \<times> groups" where
  "assign_all st sel [] = Inr st"
| "assign_all st sel (d # ds) =
     (case assign st sel d of Inl e \<Rightarrow> Inl e | Inr st' \<Rightarrow> assign_all st' sel ds)"

text \<open>
  The property names declared by the rules with the selector \<^verbatim>\<open>__proto__\<close>: the names that
  a run of the grouping loop over these rules can put on \<^verbatim>\<open>Object.prototype\<close>.
\<close>

definition proto_props :: "cssRule list \<Rightarrow> string list" where
  "proto_props rs =
     concat (map (\<lambda>r. map fst (rule_decls r)) (filter (\<lambda>r. selector r = ''__proto__'') rs))"

text \<open>
  The rules that the parser delivers for the media blocks of a text, and all rules that
  it delivers for the text.
\<close>

definition media_rules_of :: "string \<Rightarrow> cssRule list" where
  "media_rules_of css =
     concat (map (\<lambda>m. rules (parseCSSRules (content m))) (mediaRules (parseCSSRules css)))"

definition all_rules :: "string \<Rightarrow> cssRule list" where
  "all_rules css = rules (parseCSSRules css) @ media_rules_of css"

text \<open>
  The groups that the optimizer writes for a list of rules in a page with untouched
  built-in objects, and the texts of this kind that make up its output for a CSS text:
  the top-level groups first, then the groups of every media block.
\<close>

definition written :: "cssRule list \<Rightarrow> string set option \<Rightarrow> string" where
  "written rs usedClasses =
     (case group_and_filter fresh_host rs usedClasses of
        Inl e \<Rightarrow> []
      | Inr (h, g) \<Rightarrow> write_groups g)"

definition group_texts :: "string \<Rightarrow> string set option \<Rightarrow> string list" where
  "group_texts css usedClasses =
     written (rules (parseCSSRules css)) usedClasses #
     map (\<lambda>m. written (rules (parseCSSRules (content m))) usedClasses)
         (mediaRules (parseCSSRules css))"

text \<open>A media block as the optimizer writes it.\<close>

definition media_text :: "string \<Rightarrow> string \<Rightarrow> string" where
  "media_text q body = ''@media '' @ q @ ''{'' @ body @ ''}''"

text \<open>
  A grouping that a second pass reads back from its written form: its entries are well
  formed, no group is empty, the written form contains neither a comment opener nor
  \<^verbatim>\<open>@media\<close>, and the filter deletes none of its selectors.
\<close>

definition reads_back :: "string set option \<Rightarrow> groups \<Rightarrow> bool" where
  "reads_back usedClasses g =
     (wf_groups g \<and> (\<forall>e\<in>set g. snd e \<noteq> [])
      \<and> \<not> includesStr (write_groups g) ''/*''
      \<and> \<not> includesStr (write_groups g) ''@media''
      \<and> (\<forall>used. usedClasses = Some used \<longrightarrow> (\<forall>e\<in>set g. \<not> droppable used (fst e))))"

section \<open>Basic facts\<close>

lemma includesStr_single: "includesStr s [a] = (a \<in> set s)"
  by (induction s) auto

lemma startsWith_iff: "startsWith s t = (\<exists>c. s = t @ c)"
  by (induction s t rule: startsWith.induct) auto

lemma includesStr_iff: "includesStr s t = (\<exists>a c. s = a @ t @ c)"
proof (induction s)
  case Nil
  then show ?case by auto
next
  case (Cons x s)
  show ?case
  proof
    assume "includesStr (x # s) t"
    then consider "startsWith (x # s) t" | "includesStr s t" by auto
    then show "\<exists>a c. x # s = a @ t @ c"
    proof cases
      case 1
      then obtain c where "x # s = t @ c" unfolding startsWith_iff by blast
      then have "x # s = [] @ t @ c" by simp
      then show ?thesis by blast
    next
      case 2
      then obtain a c where "s = a @ t @ c" using Cons.IH by blast
      then have "x # s = (x # a) @ t @ c" by simp
      then show ?thesis by blast
    qed
  next
    assume "\<exists>a c. x # s = a @ t @ c"
    then obtain a c where e: "x # s = a @ t @ c" by blast
    show "includesStr (x # s) t"
    proof (cases a)
      case Nil
      with e have "startsWith (x # s) t" unfolding startsWith_iff by auto
      then show ?thesis by simp
    next
      case (Cons y a')
      with e have "s = a' @ t @ c" by simp
      then have "includesStr s t" using Cons.IH by blast
      then show ?thesis by simp
    qed
  qed
qed

lemma zip_upt_mem:
  "((n, x) \<in> set (zip [1 ..< Suc (length xs)] xs)) = (0 < n \<and> n \<le> length xs \<and> x = xs ! (n - 1))"
proof -
  have "((n, x) \<in> set (zip [1 ..< Suc (length xs)] xs)) =
        (\<exists>i < length xs. [1 ..< Suc (length xs)] ! i = n \<and> xs ! i = x)"
    by (auto simp: set_zip)
  also have "\<dots> = (\<exists>i < length xs. Suc i = n \<and> xs ! i = x)"
    by (metis One_nat_def add.commute less_Suc_eq_le nth_upt plus_1_eq_Suc Suc_leI)
  also have "\<dots> = (0 < n \<and> n \<le> length xs \<and> x = xs ! (n - 1))"
    by (cases n) auto
  finally show ?thesis .
qed

subsection \<open>The matcher\<close>

lemma rx_star_tail:
  "rx_run (Star P # ps) s c = Some r \<Longrightarrow> \<exists>k. k \<le> length s \<and> rx_run ps (drop k s) c = Some r"
proof (induction s)
  case Nil
  then show ?case by auto
next
  case (Cons x s)
  show ?case
  proof (cases "P x \<and> rx_run (Star P # ps) s c \<noteq> None")
    case True
    then have "rx_run (Star P # ps) s c = Some r" using Cons.prems by auto
    then obtain k where "k \<le> length s" "rx_run ps (drop k s) c = Some r"
      using Cons.IH by blast
    then have "Suc k \<le> length (x # s) \<and> rx_run ps (drop (Suc k) (x # s)) c = Some r" by simp
    then show ?thesis by blast
  next
    case False
    then have "rx_run ps (x # s) c = Some r"
      using Cons.prems by (auto split: if_splits option.splits)
    then have "0 \<le> length (x # s) \<and> rx_run ps (drop 0 (x # s)) c = Some r" by simp
    then show ?thesis by blast
  qed
qed

lemma rx_search_None:
  "(\<And>t c r. rx_run ps t c = Some r \<Longrightarrow> a \<in> set t) \<Longrightarrow> a \<notin> set s \<Longrightarrow> rx_search ps s = None"
proof (induction s)
  case Nil
  have "rx_run ps [] [] = None"
  proof (cases "rx_run ps [] []")
    case (Some r)
    from Nil(1) [OF Some] show ?thesis by simp
  qed simp
  then show ?case by simp
next
  case (Cons x s)
  have "rx_run ps (x # s) [] = None"
  proof (cases "rx_run ps (x # s) []")
    case (Some r)
    from Cons(2) [OF Some] Cons(3) show ?thesis by simp
  qed simp
  moreover have "rx_search ps s = None" using Cons by auto
  ultimately show ?case by simp
qed

subsection \<open>Objects\<close>

lemma set_own_keys: "set (own_keys obj) = fst ` set obj"
  by (auto simp: own_keys_def)

lemma distinct_own_keys: "distinct (map fst obj) \<Longrightarrow> distinct (own_keys obj)"
  by (auto simp: own_keys_def distinct_map_filter)

lemma has_own_get: "has_own obj k = (get_own obj k \<noteq> None)"
  by (simp add: has_own_def get_own_def map_of_eq_None_iff)

lemma get_own_Some_key: "get_own obj k = Some v \<Longrightarrow> k \<in> set (own_keys obj)"
  using has_own_get [of obj k] by (simp add: set_own_keys has_own_def)

lemma own_key_get: "k \<in> set (own_keys obj) \<Longrightarrow> \<exists>v. get_own obj k = Some v"
  using has_own_get [of obj k] by (simp add: set_own_keys has_own_def)

lemma get_own_put: "get_own (put obj k v) k' = (if k' = k then Some v else get_own obj k')"
  by (induction obj) (auto simp: get_own_def)

lemma keys_put: "map fst (put obj k v) = (if has_own obj k then map fst obj else map fst obj @ [k])"
  by (induction obj) (force simp: has_own_def)+

lemma get_own_delete: "get_own (delete obj k) k' = (if k' = k then None else get_own obj k')"
  by (induction obj) (auto simp: get_own_def delete_def)

lemma keys_delete: "map fst (delete obj k) = filter (\<lambda>k'. k' \<noteq> k) (map fst obj)"
  by (induction obj) (auto simp: delete_def)

subsection \<open>The class filter\<close>

lemma drop_if_unused_eq: "drop_if_unused used k g = (if droppable used k then delete g k else g)"
  by (simp add: drop_if_unused_def droppable_def Let_def)

lemma get_own_fold_drop:
  "get_own (fold (drop_if_unused used) ks g) sel =
     (if sel \<in> set ks \<and> droppable used sel then None else get_own g sel)"
  by (induction ks arbitrary: g) (auto simp: drop_if_unused_eq get_own_delete)

lemma fold_drop_filter:
  "fold (drop_if_unused used) ks g =
     filter (\<lambda>(k, v). \<not> (k \<in> set ks \<and> droppable used k)) g"
proof (induction ks arbitrary: g)
  case Nil
  then show ?case by simp
next
  case (Cons k ks)
  have "fold (drop_if_unused used) (k # ks) g =
        filter (\<lambda>(k', v). \<not> (k' \<in> set ks \<and> droppable used k')) (drop_if_unused used k g)"
    by (simp add: Cons.IH)
  also have "\<dots> = filter (\<lambda>(k', v). \<not> (k' \<in> set (k # ks) \<and> droppable used k')) g"
    by (auto simp: drop_if_unused_eq delete_def intro!: filter_cong)
  finally show ?case .
qed


section \<open>Properties of the validator\<close>

lemma class_attr_error_props:
  "d \<in> set (class_attr_error ft n ln) \<Longrightarrow>
     line d = n \<and> message d = ''Use '' @ [squote] @ ''className'' @ [squote] @ '' instead of ''
                      @ [squote] @ ''class'' @ [squote] @ '' in '' @ config_name ft"
  by (cases "rx_search classAttrRegex ln") (simp_all add: class_attr_error_def)

lemma line_errors_line: "d \<in> set (line_errors ft n ln) \<Longrightarrow> line d = n"
  using class_attr_error_props [of d ft n ln]
  by (auto simp: line_errors_def Let_def diag_def wrongEvents_def split: if_split_asm)

lemma for_error_line:
  assumes "component ft"
  shows "(diag n (''Use '' @ [squote] @ ''htmlFor'' @ [squote] @ '' instead of ''
            @ [squote] @ ''for'' @ [squote] @ '' in '' @ config_name ft) Attribute
      \<in> set (line_errors ft n ln)) = includesStr ln ''for=''"
proof -
  have "diag n (''Use '' @ [squote] @ ''htmlFor'' @ [squote] @ '' instead of ''
            @ [squote] @ ''for'' @ [squote] @ '' in '' @ config_name ft) Attribute
          \<notin> set (class_attr_error ft n ln)"
  proof
    assume "diag n (''Use '' @ [squote] @ ''htmlFor'' @ [squote] @ '' instead of ''
            @ [squote] @ ''for'' @ [squote] @ '' in '' @ config_name ft) Attribute
          \<in> set (class_attr_error ft n ln)"
    from class_attr_error_props [OF this] show False
      by (simp add: diag_def squote_def)
  qed
  then show ?thesis
    using assms
    by (auto simp: line_errors_def Let_def diag_def component_def script_like_def wrongEvents_def
        squote_def dquote_def)
qed

lemma openTag_needs_gt:
  assumes "rx_run openTagRegex s c = Some r"
  shows "CHR ''>'' \<in> set s"
proof -
  from assms obtain x y s2 where s: "s = x # y # s2"
    and st: "rx_run [Star (\<lambda>ch. ch \<noteq> CHR ''>''), Cl (\<lambda>ch. ch \<noteq> CHR ''/''), Ch CHR ''>''] s2 c = Some r"
    unfolding openTagRegex_def
    by (cases s; cases "tl s") (auto split: if_splits)
  from rx_star_tail [OF st] obtain k where
    k: "rx_run [Cl (\<lambda>ch. ch \<noteq> CHR ''/''), Ch CHR ''>''] (drop k s2) c = Some r" by blast
  then have "CHR ''>'' \<in> set (drop k s2)"
    by (cases "drop k s2"; cases "tl (drop k s2)") (auto split: if_splits)
  then have "CHR ''>'' \<in> set s2" by (meson in_set_dropD)
  then show ?thesis using s by simp
qed

lemma openTags_zero: "CHR ''>'' \<notin> set ln \<Longrightarrow> match_count openTagRegex ln = 0"
  using rx_search_None [of openTagRegex "CHR ''>''" ln] openTag_needs_gt
  by (simp add: match_count_def rx_scan.simps)

lemma no_unclosed_warning_line:
  "filter (\<lambda>d. message d = ''Possible unclosed tag or multi-line element'')
     (line_warnings code ft n ln) = []"
  using openTags_zero [of ln]
  by (auto simp: line_warnings_def Let_def diag_def includesStr_single)

text \<open>
  Claim C7.  In a component dialect the line \<^verbatim>\<open><button onClick="x">\<close>, which is
  already in camel case, gets exactly one error, the one the all-lowercase line
  \<^verbatim>\<open><button onclick="x">\<close> gets: the line is lower-cased before it is searched.  The name
  the message proposes is \<^verbatim>\<open>Click=\<close>, the event name from its third character on.
\<close>

theorem c7_camel_case_handler_reported:
  "errors (validateSyntax ''<button onClick=\"x\">'' jsx) =
     [diag 1 (''Use camelCase: '' @ [squote] @ ''Click='' @ [squote] @ '' instead of ''
              @ [squote] @ ''onclick='' @ [squote]) Attribute]
   \<and> errors (validateSyntax ''<button onclick=\"x\">'' jsx) =
     [diag 1 (''Use camelCase: '' @ [squote] @ ''Click='' @ [squote] @ '' instead of ''
              @ [squote] @ ''onclick='' @ [squote]) Attribute]"
  by code_simp

lemma php_line_warnings:
  assumes "\<not> includesStr code ''<?php''" and "trim code \<noteq> []"
  shows "filter (\<lambda>d. type d = Structure) (line_warnings code php n ln)
           = [diag 1 ''PHP file should start with <?php tag'' Structure]"
  using assms by (simp add: line_warnings_def Let_def diag_def script_like_def)

lemma concat_map_const: "concat (map (\<lambda>x. [w]) xs) = replicate (length xs) w"
  by (induction xs) auto

lemma php_tag_warnings:
  assumes "\<not> includesStr code ''<?php''" and "trim code \<noteq> []"
  shows "filter (\<lambda>d. type d = Structure) (warnings (validateSyntax code php))
           = replicate (length (split_char CHR 0x0A code))
               (diag 1 ''PHP file should start with <?php tag'' Structure)"
proof -
  define numbered where
    "numbered = zip [1 ..< Suc (length (split_char CHR 0x0A code))] (split_char CHR 0x0A code)"
  have len: "length numbered = length (split_char CHR 0x0A code)"
    unfolding numbered_def by (simp del: upt_Suc)
  have "filter (\<lambda>d. type d = Structure) (warnings (validateSyntax code php))
          = concat (map (\<lambda>(n, ln). filter (\<lambda>d. type d = Structure) (line_warnings code php n ln)) numbered)"
    by (simp add: validateSyntax_def Let_def numbered_def filter_concat comp_def split_def)
  also have "\<dots> = concat (map (\<lambda>x. [diag 1 ''PHP file should start with <?php tag'' Structure]) numbered)"
    by (simp add: php_line_warnings [OF assms] split_def)
  also have "\<dots> = replicate (length numbered) (diag 1 ''PHP file should start with <?php tag'' Structure)"
    by (rule concat_map_const)
  finally show ?thesis by (simp add: len)
qed


text \<open>
  Claim C8.  For the PHP dialect the warning about the missing \<^verbatim>\<open><?php\<close> tag is pushed in
  every round of the loop over the lines: a source of two lines gets it twice, both
  times with line number 1.  In general, a source that is not blank and has no
  \<^verbatim>\<open><?php\<close> gets as many structural warnings as it has lines, all of them this one.
\<close>

theorem c8_php_tag_warning_per_line:
  assumes "\<not> includesStr code ''<?php''" and "trim code \<noteq> []"
  shows "warnings (validateSyntax ''a\<newline>b'' php) =
           [diag 1 ''PHP file should start with <?php tag'' Structure,
            diag 1 ''PHP file should start with <?php tag'' Structure]
       \<and> filter (\<lambda>d. type d = Structure) (warnings (validateSyntax code php))
           = replicate (length (split_char CHR 0x0A code))
               (diag 1 ''PHP file should start with <?php tag'' Structure)"
proof -
  have "warnings (validateSyntax ''a\<newline>b'' php) =
           [diag 1 ''PHP file should start with <?php tag'' Structure,
            diag 1 ''PHP file should start with <?php tag'' Structure]"
    by code_simp
  with php_tag_warnings [OF assms] show ?thesis by simp
qed

text \<open>A source of three lines.\<close>

theorem c8_php_tag_warning_per_line_witness:
  "\<not> includesStr ''echo 1;\<newline>echo 2;\<newline>echo 3;'' ''<?php''
   \<and> trim ''echo 1;\<newline>echo 2;\<newline>echo 3;'' \<noteq> []
   \<and> filter (\<lambda>d. type d = Structure)
         (warnings (validateSyntax ''echo 1;\<newline>echo 2;\<newline>echo 3;'' php))
       = [diag 1 ''PHP file should start with <?php tag'' Structure,
          diag 1 ''PHP file should start with <?php tag'' Structure,
          diag 1 ''PHP file should start with <?php tag'' Structure]"
proof -
  have a: "\<not> includesStr ''echo 1;\<newline>echo 2;\<newline>echo 3;'' ''<?php''"
    by code_simp
  have b: "trim ''echo 1;\<newline>echo 2;\<newline>echo 3;'' \<noteq> []"
    by code_simp
  have c: "length (split_char CHR 0x0A ''echo 1;\<newline>echo 2;\<newline>echo 3;'') = 3"
    by code_simp
  from c8_php_tag_warning_per_line [OF a b] a b c show ?thesis by simp
qed

text \<open>
  Claim C9.  The warning for a possibly unclosed tag asks for more opening tags than
  closing ones on a line without \<^verbatim>\<open>>\<close>; an opening tag ends with \<^verbatim>\<open>>\<close>, so the warning is
  never given, for no source text and no dialect.  The line \<^verbatim>\<open><div className="a"\<close>, an
  element that goes on in the next line, gets no warning.
\<close>

theorem c9_unclosed_tag_warning_unreachable:
  "warnings (validateSyntax ''<div className=\"a\"'' jsx) = []
   \<and> filter (\<lambda>d. message d = ''Possible unclosed tag or multi-line element'')
        (warnings (validateSyntax code ft)) = []"
proof
  show "warnings (validateSyntax ''<div className=\"a\"'' jsx) = []"
    by code_simp
next
  have "\<And>n ln d. d \<in> set (line_warnings code ft n ln) \<Longrightarrow>
          message d \<noteq> ''Possible unclosed tag or multi-line element''"
    using no_unclosed_warning_line [of code ft] by (simp add: filter_empty_conv)
  then show "filter (\<lambda>d. message d = ''Possible unclosed tag or multi-line element'')
        (warnings (validateSyntax code ft)) = []"
    by (auto simp: validateSyntax_def Let_def filter_empty_conv)
qed

text \<open>
  Claim C10, as amended.  In a component dialect, line \<open>i + 1\<close> of the source gets the
  error \<^verbatim>\<open>Use 'htmlFor' instead of 'for'\<close> exactly when the line contains the text
  \<^verbatim>\<open>for=\<close>, in this case; \<^verbatim>\<open>htmlFor=\<close> has a capital F and does not contain it.
\<close>

theorem c10_for_attribute_error:
  assumes "component ft" and "i < length (split_char CHR 0x0A code)"
  shows "(diag (Suc i) (''Use '' @ [squote] @ ''htmlFor'' @ [squote] @ '' instead of ''
            @ [squote] @ ''for'' @ [squote] @ '' in '' @ config_name ft) Attribute
           \<in> set (errors (validateSyntax code ft)))
         = includesStr (split_char CHR 0x0A code ! i) ''for=''"
proof -
  define d where "d = diag (Suc i) (''Use '' @ [squote] @ ''htmlFor'' @ [squote] @ '' instead of ''
            @ [squote] @ ''for'' @ [squote] @ '' in '' @ config_name ft) Attribute"
  define ls where "ls = split_char CHR 0x0A code"
  have ld: "line d = Suc i" by (simp add: diag_def d_def)
  have n: "\<And>n ln. d \<in> set (line_errors ft n ln) \<Longrightarrow> n = Suc i"
    using line_errors_line [of d ft] ld by metis
  have "(d \<in> set (errors (validateSyntax code ft))) =
        (\<exists>n ln. (n, ln) \<in> set (zip [1 ..< Suc (length ls)] ls) \<and> d \<in> set (line_errors ft n ln))"
    by (auto simp: validateSyntax_def Let_def ls_def)
  also have "\<dots> = (d \<in> set (line_errors ft (Suc i) (ls ! i)))"
  proof
    assume "\<exists>n ln. (n, ln) \<in> set (zip [1 ..< Suc (length ls)] ls) \<and> d \<in> set (line_errors ft n ln)"
    then obtain n ln where a: "(n, ln) \<in> set (zip [1 ..< Suc (length ls)] ls)"
      and b: "d \<in> set (line_errors ft n ln)" by blast
    from n [OF b] a have "ln = ls ! i" unfolding zip_upt_mem by simp
    with b n [OF b] show "d \<in> set (line_errors ft (Suc i) (ls ! i))" by simp
  next
    assume b: "d \<in> set (line_errors ft (Suc i) (ls ! i))"
    have "(Suc i, ls ! i) \<in> set (zip [1 ..< Suc (length ls)] ls)"
      unfolding zip_upt_mem using assms(2) by (simp add: ls_def)
    with b show "\<exists>n ln. (n, ln) \<in> set (zip [1 ..< Suc (length ls)] ls) \<and> d \<in> set (line_errors ft n ln)"
      by blast
  qed
  also have "\<dots> = includesStr (ls ! i) ''for=''"
    using for_error_line [OF assms(1)] by (simp add: d_def)
  finally show ?thesis by (simp add: d_def ls_def)
qed

theorem c10_for_attribute_error_witness:
  "component jsx \<and> 0 < length (split_char CHR 0x0A ''<label for=\"x\">'')
   \<and> diag (Suc 0) (''Use '' @ [squote] @ ''htmlFor'' @ [squote] @ '' instead of ''
            @ [squote] @ ''for'' @ [squote] @ '' in '' @ config_name jsx) Attribute
        \<in> set (errors (validateSyntax ''<label for=\"x\">'' jsx))"
  using c10_for_attribute_error [of jsx 0 "''<label for=\"x\">''"]
  by (simp add: component_def)

text \<open>
  The claim as stated fails: the line \<^verbatim>\<open><label htmlFor="x">\<close> contains \<^verbatim>\<open>htmlFor=\<close> and gets
  no error at all.
\<close>

theorem c10_htmlFor_counterexample:
  "includesStr ''<label htmlFor=\"x\">'' ''htmlFor=''
   \<and> errors (validateSyntax ''<label htmlFor=\"x\">'' jsx) = []"
  by code_simp

section \<open>Properties of the class usage extractor\<close>

text \<open>
  Claim C6.  For the markup \<^verbatim>\<open>className="a b" className={cond ? 'c' : 'd'}\<close> the extractor
  returns \<open>a\<close>, \<open>b\<close> and \<open>d\<close>: the greedy \<^verbatim>\<open>[^}]*\<close> of the third expression runs to the
  last quoted literal inside the braces, and the search goes on behind it, so that \<open>c\<close>
  is never captured.
\<close>

theorem c6_conditional_first_branch_missed:
  "extractClassNames (''className=\"a b\" className={cond ? '' @ [squote] @ ''c'' @ [squote]
                      @ '' : '' @ [squote] @ ''d'' @ [squote] @ ''}'')
   = [''a'', ''b'', ''d'']"
  by code_simp

section \<open>Properties of the parser\<close>

subsection \<open>Regular expressions of the parser\<close>

lemma rx_search_None_prefix:
  assumes "\<And>t c r. rx_run ps t c = Some r \<Longrightarrow> startsWith t w"
    and "\<not> includesStr s w"
  shows "rx_search ps s = None"
  using assms(2)
proof (induction s)
  case Nil
  have "rx_run ps [] [] = None"
  proof (cases "rx_run ps [] []")
    case (Some r)
    from assms(1) [OF Some] Nil show ?thesis by (cases w) auto
  qed simp
  then show ?case by simp
next
  case (Cons x s)
  have "rx_run ps (x # s) [] = None"
  proof (cases "rx_run ps (x # s) []")
    case (Some r)
    from assms(1) [OF Some] Cons.prems show ?thesis by simp
  qed simp
  moreover have "rx_search ps s = None" using Cons by simp
  ultimately show ?case by simp
qed

lemma rx_run_lit:
  "rx_run (lit w @ ps) t c = Some r \<Longrightarrow> startsWith t w"
proof (induction w arbitrary: t)
  case Nil
  then show ?case by simp
next
  case (Cons a w)
  then show ?case by (cases t) (auto simp: lit_def split: if_splits)
qed

lemma rx_scan_None: "rx_search ps s = None \<Longrightarrow> rx_scan ps s = ([], s)"
  by (simp add: rx_scan.simps)

lemma remove_comments_id:
  assumes "\<not> includesStr s ''/*''"
  shows "remove_all commentRegex s = s"
proof -
  have "\<And>t c r. rx_run commentRegex t c = Some r \<Longrightarrow> startsWith t ''/*''"
    using rx_run_lit [of "''/*''" "[Lazy (\<lambda>ch. True), Ch CHR ''*'', Ch CHR ''/'']"]
    by (simp add: commentRegex_def lit_def)
  from rx_search_None_prefix [OF this assms] show ?thesis
    by (simp add: remove_all_def rx_scan_None)
qed

lemma no_media:
  assumes "\<not> includesStr s ''@media''"
  shows "rx_scan mediaRegex s = ([], s)"
proof -
  have "\<And>t c r. rx_run mediaRegex t c = Some r \<Longrightarrow> startsWith t ''@media''"
    unfolding mediaRegex_def by (rule rx_run_lit)
  from rx_search_None_prefix [OF this assms] show ?thesis
    by (simp add: rx_scan_None)
qed

text \<open>A greedy class quantifier before a character outside the class.\<close>

lemma star_stops:
  assumes "\<forall>x\<in>set a. P x" and "\<not> P ch"
  shows "rx_run (Star P # Cls k # Ch ch # ps) (a @ ch # t) c
           = rx_run (Cls k # Ch ch # ps) (ch # t) c"
  using assms(1)
proof (induction a)
  case Nil
  then show ?case using assms(2) by simp
next
  case (Cons x a)
  then have x: "P x" "x \<noteq> ch" using assms(2) by auto
  have IH: "rx_run (Star P # Cls k # Ch ch # ps) (a @ ch # t) c
           = rx_run (Cls k # Ch ch # ps) (ch # t) c"
    using Cons by simp
  have bk: "rx_run (Cls k # Ch ch # ps) (x # a @ ch # t) c = None"
    using x by simp
  show ?case
    using x IH bk by (simp split: option.splits)
qed

lemma star_consumed:
  "rx_run (Star P # ps) s c = Some r \<Longrightarrow>
     \<exists>a t. s = a @ t \<and> (\<forall>x\<in>set a. P x) \<and> rx_run ps t c = Some r"
proof (induction s)
  case Nil
  then show ?case by auto
next
  case (Cons x s)
  show ?case
  proof (cases "P x \<and> rx_run (Star P # ps) s c \<noteq> None")
    case True
    then have "rx_run (Star P # ps) s c = Some r" using Cons.prems by auto
    then obtain a t where "s = a @ t" "\<forall>x\<in>set a. P x" "rx_run ps t c = Some r"
      using Cons.IH by blast
    then have "x # s = (x # a) @ t \<and> (\<forall>y\<in>set (x # a). P y) \<and> rx_run ps t c = Some r"
      using True by simp
    then show ?thesis by blast
  next
    case False
    then have "rx_run ps (x # s) c = Some r"
      using Cons.prems by (auto split: if_splits option.splits)
    then have "x # s = [] @ (x # s) \<and> (\<forall>y\<in>set []. P y) \<and> rx_run ps (x # s) c = Some r" by simp
    then show ?thesis by blast
  qed
qed

lemma cap_close:
  "cap (close_group k t ((k, a @ t) # c)) k = a"
  by (simp add: close_group_def cap_def)

lemma cap_other:
  "k' \<noteq> k \<Longrightarrow> cap ((k, x) # c) k' = cap c k'"
  by (simp add: cap_def)

lemma cap_close_other:
  "k' \<noteq> k \<Longrightarrow> cap (close_group k t c) k' = cap c k'"
  by (simp add: close_group_def cap_def split: option.splits)

text \<open>What a match of the rule pattern looks like.\<close>

lemma ruleRegex_match:
  assumes "rx_run ruleRegex s [] = Some (c, r)"
  shows "\<exists>a b. s = a @ CHR ''{'' # b @ CHR ''}'' # r \<and> a \<noteq> [] \<and> CHR ''{'' \<notin> set a
            \<and> b \<noteq> [] \<and> CHR ''}'' \<notin> set b \<and> cap c 1 = a \<and> cap c 2 = b"
proof -
  let ?P = "\<lambda>ch. ch \<noteq> CHR ''{''" and ?Q = "\<lambda>ch. ch \<noteq> CHR ''}''"
  let ?rest2 = "[Cls 2, Ch CHR ''}'']"
  let ?rest1 = "[Cls 1, Ch CHR ''{'', Opn 2, Plus ?Q, Cls 2, Ch CHR ''}'']"
  from assms obtain x s1 where s: "s = x # s1" and x: "?P x"
    and 1: "rx_run (Star ?P # ?rest1) s1 [(1, s)] = Some (c, r)"
    by (cases s) (auto simp: ruleRegex_def split: if_splits)
  from star_consumed [OF 1] obtain a1 t1 where s1: "s1 = a1 @ t1" and a1: "\<forall>y\<in>set a1. ?P y"
    and 2: "rx_run ?rest1 t1 [(1, s)] = Some (c, r)" by blast
  define a where "a = x # a1"
  have sa: "s = a @ t1" by (simp add: s s1 a_def)
  from 2 obtain y s2 where t1: "t1 = CHR ''{'' # y # s2" and y: "?Q y"
    and 3: "rx_run (Star ?Q # ?rest2) s2
              ((2, y # s2) # close_group 1 t1 [(1, s)]) = Some (c, r)"
    by (cases t1; cases "tl t1") (auto split: if_splits)
  from star_consumed [OF 3] obtain b1 t2 where s2: "s2 = b1 @ t2" and b1: "\<forall>z\<in>set b1. ?Q z"
    and 4: "rx_run ?rest2 t2 ((2, y # s2) # close_group 1 t1 [(1, s)]) = Some (c, r)" by blast
  define b where "b = y # b1"
  from 4 have t2: "t2 = CHR ''}'' # r"
    and c: "c = close_group 2 t2 ((2, y # s2) # close_group 1 t1 [(1, s)])"
    by (cases t2; auto split: if_splits)+
  have c2: "cap c 2 = b"
    unfolding c using cap_close [of 2 t2 b] by (simp add: b_def s2)
  have "cap c 1 = cap (close_group 1 t1 [(1, s)]) 1"
    unfolding c by (simp add: cap_close_other cap_other)
  also have "\<dots> = a"
    using cap_close [of 1 t1 a "[]"] by (simp add: sa)
  finally have c1: "cap c 1 = a" .
  have "s = a @ CHR ''{'' # b @ CHR ''}'' # r"
    by (simp add: sa t1 s2 t2 b_def)
  moreover have "a \<noteq> []" "b \<noteq> []" by (simp_all add: a_def b_def)
  moreover have "CHR ''{'' \<notin> set a" using x a1 by (auto simp: a_def)
  moreover have "CHR ''}'' \<notin> set b" using y b1 by (auto simp: b_def)
  ultimately show ?thesis using c1 c2 by blast
qed

text \<open>The rule pattern on a selector, a body and what follows.\<close>

lemma ruleRegex_run:
  assumes "a \<noteq> []" "CHR ''{'' \<notin> set a" "b \<noteq> []" "CHR ''}'' \<notin> set b"
  shows "\<exists>c. rx_run ruleRegex (a @ CHR ''{'' # b @ CHR ''}'' # r) [] = Some (c, r)
            \<and> cap c 1 = a \<and> cap c 2 = b"
proof -
  let ?P = "\<lambda>ch. ch \<noteq> CHR ''{''" and ?Q = "\<lambda>ch. ch \<noteq> CHR ''}''"
  let ?s = "a @ CHR ''{'' # b @ CHR ''}'' # r"
  let ?t1 = "CHR ''{'' # b @ CHR ''}'' # r"
  let ?t2 = "CHR ''}'' # r"
  obtain x a1 where a: "a = x # a1" using assms(1) by (cases a) auto
  obtain y b1 where b: "b = y # b1" using assms(3) by (cases b) auto
  have pa: "\<forall>z\<in>set a1. ?P z" "?P x" using assms(2) a by auto
  have qb: "\<forall>z\<in>set b1. ?Q z" "?Q y" using assms(4) b by auto
  define c1 where "c1 = close_group 1 ?t1 [(1, ?s)]"
  define c2 where "c2 = close_group 2 ?t2 ((2, b @ ?t2) # c1)"
  have "rx_run ruleRegex ?s [] =
        rx_run (Star ?P # [Cls 1, Ch CHR ''{'', Opn 2, Plus ?Q, Cls 2, Ch CHR ''}'']) (a1 @ ?t1) [(1, ?s)]"
    using pa(2) by (simp add: ruleRegex_def a)
  also have "\<dots> = rx_run [Cls 1, Ch CHR ''{'', Opn 2, Plus ?Q, Cls 2, Ch CHR ''}''] ?t1 [(1, ?s)]"
    using star_stops [of a1 ?P "CHR ''{''" 1 "[Opn 2, Plus ?Q, Cls 2, Ch CHR ''}'']" "b @ ?t2" "[(1, ?s)]"] pa(1)
    by simp
  also have "\<dots> = rx_run (Star ?Q # [Cls 2, Ch CHR ''}'']) (b1 @ ?t2) ((2, b @ ?t2) # c1)"
    using qb(2) by (simp add: b c1_def)
  also have "\<dots> = rx_run [Cls 2, Ch CHR ''}''] ?t2 ((2, b @ ?t2) # c1)"
    using star_stops [of b1 ?Q "CHR ''}''" 2 "[]" r "(2, b @ ?t2) # c1"] qb(1) by simp
  also have "\<dots> = Some (c2, r)"
    by (simp add: c2_def)
  finally have run: "rx_run ruleRegex ?s [] = Some (c2, r)" .
  have "cap c2 2 = b"
    unfolding c2_def by (rule cap_close)
  moreover have "cap c2 1 = a"
  proof -
    have "cap c2 1 = cap c1 1"
      unfolding c2_def by (simp add: cap_close_other cap_other)
    also have "\<dots> = a"
      unfolding c1_def using cap_close [of 1 ?t1 a "[]"] by simp
    finally show ?thesis .
  qed
  ultimately show ?thesis using run by blast
qed


lemma rx_search_hit: "rx_run ps s [] = Some (c, r) \<Longrightarrow> rx_search ps s = Some ([], c, r)"
  by (cases s) auto

lemma rx_search_Some:
  "rx_search ps s = Some (pre, c, r) \<Longrightarrow> \<exists>t. rx_run ps t [] = Some (c, r)"
proof (induction s arbitrary: pre)
  case Nil
  then show ?case by (auto split: option.splits)
next
  case (Cons x s)
  show ?case
  proof (cases "rx_run ps (x # s) []")
    case None
    with Cons.prems obtain pre' where "rx_search ps s = Some (pre', c, r)"
      by (auto split: option.splits)
    from Cons.IH [OF this] show ?thesis .
  next
    case (Some a)
    with Cons.prems have "rx_run ps (x # s) [] = Some (c, r)" by (cases a) auto
    then show ?thesis by blast
  qed
qed

lemma skip_unit_caps: "snd ` set (fst (skip_unit x res)) = snd ` set (fst res)"
  by (cases "(x, res)" rule: skip_unit.cases) auto

lemma rx_scan_all:
  assumes "\<And>t c r. rx_run ps t [] = Some (c, r) \<Longrightarrow> Q c"
  shows "\<forall>c \<in> snd ` set (fst (rx_scan ps s)). Q c"
  using assms
proof (induction ps s rule: rx_scan.induct)
  case (1 ps s)
  note run = "1.prems"
  show ?case
  proof (cases "rx_search ps s")
    case None
    then show ?thesis by (simp add: rx_scan.simps)
  next
    case (Some m)
    obtain pre c r where m: "m = (pre, c, r)" by (cases m)
    from rx_search_Some [OF Some [unfolded m]] obtain t where "rx_run ps t [] = Some (c, r)" ..
    then have q: "Q c" by (rule run)
    show ?thesis
    proof (cases "length r < length s")
      case True
      from "1.IH"(1) [OF Some [unfolded m] refl refl True run]
      have "\<forall>c \<in> snd ` set (fst (rx_scan ps r)). Q c" .
      then show ?thesis
        using Some m True q by (subst rx_scan.simps) (auto split: prod.splits)
    next
      case False
      show ?thesis
      proof (cases s)
        case Nil
        then show ?thesis
          using Some m False q by (subst rx_scan.simps) auto
      next
        case (Cons x s')
        from "1.IH"(2) [OF Some [unfolded m] refl refl False Cons run]
        have "\<forall>c \<in> snd ` set (fst (rx_scan ps s')). Q c" .
        then have "\<forall>c \<in> snd ` set (fst (skip_unit x (rx_scan ps s'))). Q c"
          by (simp only: skip_unit_caps)
        then show ?thesis
          using Some m False q Cons by (subst rx_scan.simps) (auto split: prod.splits)
      qed
    qed
  qed
qed

subsection \<open>No empty match\<close>

lemma rx_run_length: "rx_run ps s c = Some (c', r) \<Longrightarrow> length r \<le> length s"
proof (induction ps s c arbitrary: c' r rule: rx_run.induct)
  case (7 P ps x s c)
  then show ?case by (fastforce split: if_splits option.splits)
next
  case (11 P ps x s c)
  then show ?case by (fastforce split: if_splits option.splits)
next
  case (14 p q ps s c)
  then show ?case by (fastforce split: option.splits)
next
  case (15 p ps s c)
  then show ?case by (fastforce split: option.splits prod.splits)
qed (fastforce split: if_splits)+

lemma rx_run_progress:
  "consumes ps \<Longrightarrow> rx_run ps s c = Some (c', r) \<Longrightarrow> length r < length s"
proof (induction ps arbitrary: c rule: consumes.induct)
  case (1 a ps)
  then show ?case using rx_run_length [of ps "tl s" c c' r] by (cases s) (auto split: if_splits)
next
  case (2 P ps)
  then show ?case using rx_run_length [of ps "tl s" c c' r] by (cases s) (auto split: if_splits)
next
  case (3 P ps)
  then show ?case
    using rx_run_length [of "Star P # ps" "tl s" c c' r] by (cases s) (auto split: if_splits)
next
  case (4 k ps)
  then show ?case by simp
qed simp_all

lemma source_patterns_consume:
  "consumes commentRegex" "consumes mediaRegex" "consumes ruleRegex" "consumes classTokenRegex"
  "consumes stringRegex" "consumes templateRegex" "consumes conditionalRegex"
  "consumes openTagRegex" "consumes closeTagRegex" "consumes selfClosingRegex"
  by (simp_all add: commentRegex_def mediaRegex_def ruleRegex_def classTokenRegex_def
        stringRegex_def templateRegex_def conditionalRegex_def openTagRegex_def
        closeTagRegex_def selfClosingRegex_def lit_def)

text \<open>Hence a round of \<open>rx_scan\<close> always goes on behind its match.\<close>

lemma rx_scan_step:
  assumes "consumes ps" and "rx_search ps s = Some (pre, c, r)"
  shows "rx_scan ps s = ((pre, c) # fst (rx_scan ps r), snd (rx_scan ps r))"
proof -
  have "\<And>pre. rx_search ps s = Some (pre, c, r) \<Longrightarrow> length r < length s"
  proof (induction s)
    case Nil
    then have "rx_run ps [] [] = Some (c, r)" by (auto split: option.splits)
    from rx_run_progress [OF assms(1) this] show ?case by simp
  next
    case (Cons x s)
    show ?case
    proof (cases "rx_run ps (x # s) []")
      case None
      with Cons.prems obtain pre' where "rx_search ps s = Some (pre', c, r)"
        by (auto split: option.splits)
      from Cons.IH [OF this] show ?thesis by simp
    next
      case (Some a)
      with Cons.prems have "rx_run ps (x # s) [] = Some (c, r)" by (cases a) auto
      from rx_run_progress [OF assms(1) this] show ?thesis .
    qed
  qed
  from this [OF assms(2)] assms(2) show ?thesis
    by (subst rx_scan.simps) (simp split: prod.splits)
qed

subsection \<open>Trimming and splitting\<close>

lemma set_trim: "set (trim s) \<subseteq> set s"
proof -
  have "set (trim s) \<subseteq> set (rev (dropWhile is_space s))"
    unfolding trim_def using set_dropWhileD [of _ is_space "rev (dropWhile is_space s)"] by auto
  also have "\<dots> \<subseteq> set s"
    using set_dropWhileD [of _ is_space s] by auto
  finally show ?thesis .
qed

lemma dropWhile_id: "xs \<noteq> [] \<Longrightarrow> \<not> P (hd xs) \<Longrightarrow> dropWhile P xs = xs"
  by (cases xs) auto

lemma trim_id:
  assumes "s \<noteq> []" "\<not> is_space (hd s)" "\<not> is_space (last s)"
  shows "trim s = s"
proof -
  have 1: "dropWhile is_space s = s"
    using assms(1,2) by (cases s) auto
  have "rev s \<noteq> []" "hd (rev s) = last s"
    using assms(1) by (simp_all add: hd_rev)
  then have 2: "dropWhile is_space (rev s) = rev s"
    using assms(3) by (intro dropWhile_id) simp_all
  show ?thesis by (simp add: trim_def 1 2)
qed

lemma trim_ends:
  assumes "trim s \<noteq> []"
  shows "\<not> is_space (hd (trim s)) \<and> \<not> is_space (last (trim s))"
proof -
  define u where "u = dropWhile is_space s"
  define w where "w = dropWhile is_space (rev u)"
  have t: "trim s = rev w" by (simp add: trim_def u_def w_def)
  with assms have w: "w \<noteq> []" by simp
  then have "\<not> is_space (hd w)"
    unfolding w_def using hd_dropWhile by metis
  then have l: "\<not> is_space (last (trim s))"
    using w by (simp add: t last_rev)
  obtain k where k: "rev u = take k (rev u) @ w" 
    unfolding w_def by (metis takeWhile_dropWhile_id takeWhile_eq_take)
  have "u \<noteq> []" using w w_def by auto
  then have hu: "\<not> is_space (hd u)"
    unfolding u_def using hd_dropWhile by metis
  have "u = rev w @ rev (take k (rev u))"
    using k by (metis rev_append rev_rev_ident)
  then have "hd u = hd (rev w)"
    using w by (metis hd_append2 rev_is_Nil_conv)
  with hu have "\<not> is_space (hd (trim s))" by (simp add: t)
  with l show ?thesis by simp
qed

lemma trim_idem: "trim (trim s) = trim s"
proof (cases "trim s = []")
  case True
  have "trim [] = []" by (simp add: trim_def)
  with True show ?thesis by simp
next
  case False
  from trim_ends [OF False] False show ?thesis by (intro trim_id) auto
qed

lemma trimmed_ends: "trim s = s \<Longrightarrow> s \<noteq> [] \<Longrightarrow> \<not> is_space (hd s) \<and> \<not> is_space (last s)"
  using trim_ends [of s] by simp

lemma split_char_nonempty: "split_char sep s \<noteq> []"
  by (induction s) (auto split: list.splits)

lemma split_char_none: "sep \<notin> set a \<Longrightarrow> split_char sep a = [a]"
  by (induction a) auto

lemma split_char_append:
  "sep \<notin> set a \<Longrightarrow> split_char sep (a @ sep # r) = a # split_char sep r"
  by (induction a) auto

lemma split_char_pieces:
  "w \<in> set (split_char sep s) \<Longrightarrow> sep \<notin> set w \<and> set w \<subseteq> set s"
proof (induction s arbitrary: w)
  case Nil
  then show ?case by simp
next
  case (Cons x s)
  show ?case
  proof (cases "x = sep")
    case True
    with Cons show ?thesis by auto
  next
    case False
    obtain w' ws where sp: "split_char sep s = w' # ws"
      using split_char_nonempty [of sep s] by (cases "split_char sep s") auto
    with Cons.prems False have "w = x # w' \<or> w \<in> set ws" by simp
    then show ?thesis
    proof
      assume "w = x # w'"
      moreover have "sep \<notin> set w' \<and> set w' \<subseteq> set s" using Cons.IH [of w'] sp by simp
      ultimately show ?thesis using False by auto
    next
      assume "w \<in> set ws"
      then have "sep \<notin> set w \<and> set w \<subseteq> set s" using Cons.IH [of w] sp by simp
      then show ?thesis by auto
    qed
  qed
qed

subsection \<open>Parsed rules are well formed\<close>

lemma ruleRegex_caps:
  assumes "rx_run ruleRegex t [] = Some (c, r)"
  shows "CHR ''{'' \<notin> set (cap c 1) \<and> CHR ''}'' \<notin> set (cap c 2)"
  using ruleRegex_match [OF assms] by auto

lemma parsed_rules_wf:
  assumes "r \<in> set (rules (parseCSSRules css))"
  shows "wf_rule r"
proof -
  define text2 where "text2 = remove_all mediaRegex (remove_all commentRegex css)"
  from assms obtain m where m: "m \<in> set (fst (rx_scan ruleRegex text2))"
    and r: "r \<in> set (rule_of_match (snd m))"
    by (auto simp: parseCSSRules_def Let_def text2_def)
  obtain pre c where mc: "m = (pre, c)" by (cases m)
  have "\<forall>c \<in> snd ` set (fst (rx_scan ruleRegex text2)).
          CHR ''{'' \<notin> set (cap c 1) \<and> CHR ''}'' \<notin> set (cap c 2)"
    by (rule rx_scan_all) (rule ruleRegex_caps)
  with m mc have caps: "CHR ''{'' \<notin> set (cap c 1)" "CHR ''}'' \<notin> set (cap c 2)"
    by force+
  from r mc have sel: "selector r = trim (cap c 1)" "declarations r = trim (cap c 2)"
    and ne: "trim (cap c 1) \<noteq> []"
    by (auto simp: rule_of_match_def Let_def split: if_splits)
  have "CHR ''{'' \<notin> set (selector r)"
    using caps(1) set_trim [of "cap c 1"] sel(1) by auto
  moreover have "CHR ''}'' \<notin> set (declarations r)"
    using caps(2) set_trim [of "cap c 2"] sel(2) by auto
  ultimately show ?thesis
    using sel ne by (simp add: wf_rule_def wf_selector_def trim_idem)
qed

lemma set_map_filter: "set (List.map_filter f xs) = {y. \<exists>x\<in>set xs. f x = Some y}"
  by (induction xs) (auto simp: List.map_filter_simps split: option.splits)

lemma parse_decl_wf:
  assumes "parse_decl d = Some (p, v)"
  shows "p \<noteq> [] \<and> trim p = p \<and> CHR '':'' \<notin> set p \<and> set p \<subseteq> set d
       \<and> v \<noteq> [] \<and> trim v = v \<and> CHR '':'' \<notin> set v \<and> set v \<subseteq> set d"
proof -
  from assms obtain w1 w2 ws where sp: "split_char CHR '':'' d = w1 # w2 # ws"
    and p: "p = trim w1" and v: "v = trim w2" and ne: "p \<noteq> []" "v \<noteq> []"
    by (auto simp: parse_decl_def split: list.splits if_splits)
  have "w1 \<in> set (split_char CHR '':'' d)" "w2 \<in> set (split_char CHR '':'' d)"
    by (simp_all add: sp)
  from split_char_pieces [OF this(1)] split_char_pieces [OF this(2)]
  have "CHR '':'' \<notin> set w1" "set w1 \<subseteq> set d" "CHR '':'' \<notin> set w2" "set w2 \<subseteq> set d"
    by auto
  then show ?thesis
    using set_trim [of w1] set_trim [of w2] p v ne by (auto simp: trim_idem)
qed

lemma rule_decls_wf:
  assumes "wf_rule r"
  shows "wf_decls (rule_decls r)"
  unfolding wf_decls_def
proof
  fix e assume "e \<in> set (rule_decls r)"
  then obtain d where d: "d \<in> set (split_char CHR '';'' (declarations r))"
    and e: "parse_decl d = Some e"
    by (auto simp: rule_decls_def set_map_filter)
  obtain p v where pv: "e = (p, v)" by (cases e)
  from split_char_pieces [OF d] have dd: "CHR '';'' \<notin> set d" "set d \<subseteq> set (declarations r)"
    by auto
  with assms have "CHR ''}'' \<notin> set d" by (auto simp: wf_rule_def)
  with parse_decl_wf [OF e [unfolded pv]] dd(1)
  show "wf_token (fst e) \<and> wf_token (snd e)"
    by (auto simp: wf_token_def pv)
qed

subsection \<open>The media pattern\<close>

lemma star_greedy:
  assumes "\<forall>x\<in>set a. P x" and "t = [] \<or> \<not> P (hd t)" and "rx_run ps t c = Some r"
  shows "rx_run (Star P # ps) (a @ t) c = Some r"
  using assms(1)
proof (induction a)
  case Nil
  show ?case using assms(2,3) by (cases t) auto
next
  case (Cons x a)
  then show ?case by simp
qed

lemma lazy_first:
  assumes "\<forall>u v. w = u @ v \<and> v \<noteq> [] \<longrightarrow> rx_run ps (v @ t) c = None"
    and "rx_run ps t c = Some r"
  shows "rx_run (Lazy (\<lambda>ch. True) # ps) (w @ t) c = Some r"
  using assms(1)
proof (induction w)
  case Nil
  show ?case using assms(2) by (cases t) auto
next
  case (Cons x w)
  have "rx_run ps ((x # w) @ t) c = None"
    using Cons.prems by blast
  moreover have "\<forall>u v. w = u @ v \<and> v \<noteq> [] \<longrightarrow> rx_run ps (v @ t) c = None"
  proof (intro allI impI)
    fix u v assume "w = u @ v \<and> v \<noteq> []"
    then have "x # w = (x # u) @ v \<and> v \<noteq> []" by simp
    with Cons.prems show "rx_run ps (v @ t) c = None" by blast
  qed
  ultimately show ?case using Cons.IH by simp
qed

lemma lazy_consumed:
  "rx_run (Lazy P # ps) s c = Some r \<Longrightarrow> \<exists>a t. s = a @ t \<and> rx_run ps t c = Some r"
proof (induction s)
  case Nil
  then show ?case by auto
next
  case (Cons x s)
  show ?case
  proof (cases "rx_run ps (x # s) c")
    case None
    with Cons.prems have "rx_run (Lazy P # ps) s c = Some r"
      by (auto split: if_splits)
    from Cons.IH [OF this] obtain a t where "s = a @ t" "rx_run ps t c = Some r" by blast
    then have "x # s = (x # a) @ t \<and> rx_run ps t c = Some r" by simp
    then show ?thesis by blast
  next
    case (Some r')
    with Cons.prems have "rx_run ps (x # s) c = Some r" by simp
    then have "x # s = [] @ (x # s) \<and> rx_run ps (x # s) c = Some r" by simp
    then show ?thesis by blast
  qed
qed

lemma rx_run_lit_match: "rx_run (lit w @ ps) (w @ s) c = rx_run ps s c"
  by (induction w) (simp_all add: lit_def)

lemma startsWith_cut:
  assumes "startsWith (v @ ch # r) pat" and "ch \<notin> set pat"
  shows "startsWith v pat"
proof -
  from assms(1) obtain c where "v @ ch # r = pat @ c" unfolding startsWith_iff by blast
  then obtain us where "(v = pat @ us \<and> us @ ch # r = c) \<or> (v @ us = pat \<and> ch # r = us @ c)"
    unfolding append_eq_append_conv2 by blast
  then show ?thesis
  proof
    assume "v = pat @ us \<and> us @ ch # r = c"
    then show ?thesis unfolding startsWith_iff by blast
  next
    assume h: "v @ us = pat \<and> ch # r = us @ c"
    show ?thesis
    proof (cases us)
      case Nil
      with h show ?thesis unfolding startsWith_iff by auto
    next
      case (Cons y us')
      with h have "ch \<in> set pat" by auto
      with assms(2) show ?thesis by simp
    qed
  qed
qed

lemma prefix_cut:
  assumes "ws @ t = v @ ch # r" and "ch \<notin> set ws"
  shows "\<exists>v'. v = ws @ v' \<and> t = v' @ ch # r"
proof -
  from assms(1) obtain us where "(ws = v @ us \<and> us @ t = ch # r) \<or> (ws @ us = v \<and> t = us @ ch # r)"
    unfolding append_eq_append_conv2 by blast
  then show ?thesis
  proof
    assume h: "ws = v @ us \<and> us @ t = ch # r"
    show ?thesis
    proof (cases us)
      case Nil
      with h show ?thesis by auto
    next
      case (Cons y us')
      with h have "ch \<in> set ws" by auto
      with assms(2) show ?thesis by simp
    qed
  next
    assume "ws @ us = v \<and> t = us @ ch # r"
    then show ?thesis by auto
  qed
qed


lemma rx_run_lit_tail:
  "rx_run (lit w @ ps) t c = Some r \<Longrightarrow> \<exists>t'. rx_run ps t' c = Some r"
proof (induction w arbitrary: t)
  case Nil
  then show ?case by (auto simp: lit_def)
next
  case (Cons a w)
  then show ?case by (cases t) (auto simp: lit_def split: if_splits)
qed

text \<open>The lookahead of the media pattern.\<close>

lemma ahead_needs:
  assumes "rx_run [Star is_space, Opn 3, Alt (lit ''@media'') [Eos], Cls 3] s c = Some r"
  shows "\<exists>ws t. s = ws @ t \<and> (\<forall>x\<in>set ws. is_space x) \<and> (startsWith t ''@media'' \<or> t = [])"
proof -
  from star_consumed [OF assms] obtain ws t where s: "s = ws @ t" and ws: "\<forall>x\<in>set ws. is_space x"
    and 1: "rx_run [Opn 3, Alt (lit ''@media'') [Eos], Cls 3] t c = Some r" by blast
  have "startsWith t ''@media'' \<or> t = []"
  proof (cases "rx_run (lit ''@media'' @ [Cls 3]) t ((3, t) # c)")
    case None
    with 1 have "rx_run [Eos, Cls 3] t ((3, t) # c) = Some r" by simp
    then show ?thesis by (cases t) auto
  next
    case (Some r')
    from rx_run_lit [OF this] show ?thesis by simp
  qed
  with s ws show ?thesis by blast
qed

lemma ahead_caps:
  assumes "rx_run [Star is_space, Opn 3, Alt (lit ''@media'') [Eos], Cls 3] s c = Some (c', r)"
  shows "cap c' 1 = cap c 1 \<and> cap c' 2 = cap c 2"
proof -
  from star_consumed [OF assms] obtain ws t where
    1: "rx_run [Opn 3, Alt (lit ''@media'') [Eos], Cls 3] t c = Some (c', r)" by blast
  have "\<exists>t'. rx_run [Cls 3] t' ((3, t) # c) = Some (c', r)"
  proof (cases "rx_run (lit ''@media'' @ [Cls 3]) t ((3, t) # c)")
    case None
    with 1 have "rx_run [Eos, Cls 3] t ((3, t) # c) = Some (c', r)" by simp
    then have "rx_run [Cls 3] [] ((3, t) # c) = Some (c', r)" by (cases t) auto
    then show ?thesis by blast
  next
    case (Some r')
    with 1 have "rx_run (lit ''@media'' @ [Cls 3]) t ((3, t) # c) = Some (c', r)" by simp
    from rx_run_lit_tail [OF this] show ?thesis .
  qed
  then obtain t' where "c' = close_group 3 t' ((3, t) # c)" by auto
  then show ?thesis by (simp add: cap_close_other cap_other)
qed

lemma ahead_ok:
  assumes "s = [] \<or> startsWith s ''@media''"
  shows "\<exists>c'. rx_run [Ahead [Star is_space, Opn 3, Alt (lit ''@media'') [Eos], Cls 3]] s c = Some (c', s)
              \<and> cap c' 1 = cap c 1 \<and> cap c' 2 = cap c 2"
proof -
  let ?LA = "[Star is_space, Opn 3, Alt (lit ''@media'') [Eos], Cls 3]"
  have "\<exists>c' r'. rx_run ?LA s c = Some (c', r')"
  proof (cases "s = []")
    case True
    then show ?thesis by (simp add: lit_def)
  next
    case False
    with assms obtain s' where s: "s = ''@media'' @ s'" unfolding startsWith_iff by blast
    have m: "rx_run (lit ''@media'' @ [Cls 3]) s ((3, s) # c) = Some (close_group 3 s' ((3, s) # c), s')"
      using rx_run_lit_match [of "''@media''" "[Cls 3]" s' "(3, s) # c"] by (simp add: s)
    have "rx_run ?LA s c = rx_run [Opn 3, Alt (lit ''@media'') [Eos], Cls 3] s c"
      by (simp add: s is_space_def)
    also have "\<dots> = Some (close_group 3 s' ((3, s) # c), s')"
      using m by simp
    finally show ?thesis by blast
  qed
  then obtain c' r' where 1: "rx_run ?LA s c = Some (c', r')" by blast
  from ahead_caps [OF 1] 1 show ?thesis by simp
qed

text \<open>The media pattern behind \<^verbatim>\<open>@media\<close> and white space, on a block as the optimizer writes it.\<close>

lemma media_tail:
  assumes a: "a \<noteq> []" "CHR ''{'' \<notin> set a"
    and w: "\<not> includesStr w ''@media''"
    and rest: "rest = [] \<or> startsWith rest ''@media''"
  shows "\<exists>c. rx_run [Opn 1, Plus (\<lambda>ch. ch \<noteq> CHR ''{''), Cls 1, Star is_space, Ch CHR ''{'',
                    Opn 2, Lazy (\<lambda>ch. True), Cls 2, Ch CHR ''}'',
                    Ahead [Star is_space, Opn 3, Alt (lit ''@media'') [Eos], Cls 3]]
                 (a @ CHR ''{'' # w @ CHR ''}'' # rest) [] = Some (c, rest)
            \<and> cap c 1 = a \<and> cap c 2 = w"
proof -
  let ?nb = "\<lambda>ch. ch \<noteq> CHR ''{''"
  let ?LA = "[Star is_space, Opn 3, Alt (lit ''@media'') [Eos], Cls 3]"
  let ?E = "[Cls 2, Ch CHR ''}'', Ahead ?LA]"
  let ?t3 = "CHR ''}'' # rest"
  let ?t2 = "w @ ?t3"
  let ?t1 = "CHR ''{'' # ?t2"
  let ?s0 = "a @ ?t1"
  obtain x a1 where ax: "a = x # a1" using a(1) by (cases a) auto
  have nb: "?nb x" "\<forall>y\<in>set a1. ?nb y" using a(2) ax by auto
  define c1 where "c1 = [(1::nat, ?s0)]"
  define c2 where "c2 = close_group 1 ?t1 c1"
  define c3 where "c3 = (2::nat, ?t2) # c2"
  define c4 where "c4 = close_group 2 ?t3 c3"
  from ahead_ok [OF rest, of c4] obtain c5 where
    ah: "rx_run [Ahead ?LA] rest c4 = Some (c5, rest)"
    and k1: "cap c5 1 = cap c4 1" and k2: "cap c5 2 = cap c4 2" by blast
  have e: "rx_run ?E ?t3 c3 = Some (c5, rest)"
    using ah by (simp add: c4_def)
  have l: "\<forall>u v. w = u @ v \<and> v \<noteq> [] \<longrightarrow> rx_run ?E (v @ ?t3) c3 = None"
  proof (intro allI impI)
    fix u v assume uv: "w = u @ v \<and> v \<noteq> []"
    then obtain y v' where v: "v = y # v'" by (cases v) auto
    show "rx_run ?E (v @ ?t3) c3 = None"
    proof (cases "y = CHR ''}''")
      case False
      then show ?thesis by (simp add: v)
    next
      case True
      have "rx_run ?LA (v' @ ?t3) c = None" for c
      proof (cases "rx_run ?LA (v' @ ?t3) c")
        case None
        then show ?thesis .
      next
        case (Some r)
        from ahead_needs [OF Some] obtain ws t where
          s: "v' @ ?t3 = ws @ t" and ws: "\<forall>x\<in>set ws. is_space x"
          and t: "startsWith t ''@media'' \<or> t = []" by blast
        have "\<not> is_space CHR ''}''" by (simp add: is_space_def)
        with ws have "CHR ''}'' \<notin> set ws" by blast
        from prefix_cut [OF s [symmetric] this] obtain v'' where
          v'': "v' = ws @ v''" "t = v'' @ ?t3" by blast
        with t have "startsWith (v'' @ ?t3) ''@media''" by auto
        then have "startsWith v'' ''@media''" by (rule startsWith_cut) simp
        then obtain z where "v'' = ''@media'' @ z" unfolding startsWith_iff by blast
        then have "w = (u @ y # ws) @ ''@media'' @ z"
          using uv unfolding v v''(1) by simp
        then have "includesStr w ''@media''" unfolding includesStr_iff by blast
        with w show ?thesis by simp
      qed
      then show ?thesis by (simp add: v True)
    qed
  qed
  from lazy_first [OF l e] have
    lz: "rx_run (Lazy (\<lambda>ch. True) # ?E) ?t2 c3 = Some (c5, rest)" .
  have "rx_run (Cls 1 # Star is_space # Ch CHR ''{'' # Opn 2 # Lazy (\<lambda>ch. True) # ?E) ?t1 c1
          = Some (c5, rest)"
    using lz by (simp add: c2_def c3_def is_space_def)
  with nb(2) have "rx_run (Star ?nb # Cls 1 # Star is_space # Ch CHR ''{'' # Opn 2 # Lazy (\<lambda>ch. True) # ?E)
                    (a1 @ ?t1) c1 = Some (c5, rest)"
    by (intro star_greedy) simp_all
  then have run: "rx_run (Opn 1 # Plus ?nb # Cls 1 # Star is_space # Ch CHR ''{'' # Opn 2 # Lazy (\<lambda>ch. True) # ?E)
                    ?s0 [] = Some (c5, rest)"
    using nb(1) by (simp add: ax c1_def)
  have "cap c4 2 = w"
    unfolding c4_def c3_def by (rule cap_close)
  with k2 have r2: "cap c5 2 = w" by simp
  have "cap c4 1 = cap c2 1"
    unfolding c4_def c3_def by (simp add: cap_close_other cap_other)
  also have "\<dots> = a"
    unfolding c2_def c1_def by (rule cap_close)
  finally have r1: "cap c5 1 = a" using k1 by simp
  from run r1 r2 show ?thesis by blast
qed

lemma mediaRegex_eq:
  "mediaRegex = lit ''@media'' @
     (Star is_space #
      [Opn 1, Plus (\<lambda>ch. ch \<noteq> CHR ''{''), Cls 1, Star is_space, Ch CHR ''{'',
       Opn 2, Lazy (\<lambda>ch. True), Cls 2, Ch CHR ''}'',
       Ahead [Star is_space, Opn 3, Alt (lit ''@media'') [Eos], Cls 3]])"
  by (simp add: mediaRegex_def)

text \<open>The media pattern on a block as the optimizer writes it.\<close>

lemma mediaRegex_block:
  assumes q: "trim q = q" "CHR ''{'' \<notin> set q"
    and w: "\<not> includesStr w ''@media''"
    and rest: "rest = [] \<or> startsWith rest ''@media''"
  shows "\<exists>c. rx_run mediaRegex (''@media '' @ q @ ''{'' @ w @ ''}'' @ rest) [] = Some (c, rest)
            \<and> trim (cap c 1) = q \<and> cap c 2 = w"
proof -
  let ?tail = "[Opn 1, Plus (\<lambda>ch. ch \<noteq> CHR ''{''), Cls 1, Star is_space, Ch CHR ''{'',
       Opn 2, Lazy (\<lambda>ch. True), Cls 2, Ch CHR ''}'',
       Ahead [Star is_space, Opn 3, Alt (lit ''@media'') [Eos], Cls 3]]"
  let ?body = "CHR ''{'' # w @ CHR ''}'' # rest"
  have s: "''@media '' @ q @ ''{'' @ w @ ''}'' @ rest = ''@media'' @ (CHR '' '' # q @ ?body)"
    by simp
  have 1: "rx_run mediaRegex (''@media '' @ q @ ''{'' @ w @ ''}'' @ rest) []
             = rx_run (Star is_space # ?tail) (CHR '' '' # q @ ?body) []"
    unfolding mediaRegex_eq s by (rule rx_run_lit_match)
  have sp: "is_space CHR '' ''" "\<not> is_space CHR ''{''" by (simp_all add: is_space_def)
  show ?thesis
  proof (cases "q = []")
    case True
    from media_tail [of "'' ''" w rest] w rest obtain c where
      c: "rx_run ?tail (CHR '' '' # ?body) [] = Some (c, rest)" "cap c 1 = '' ''" "cap c 2 = w"
      by auto
    have "rx_run (Star is_space # ?tail) ?body [] = None"
      using sp by simp
    then have "rx_run (Star is_space # ?tail) (CHR '' '' # ?body) [] = Some (c, rest)"
      using sp c(1) by simp
    moreover have "trim '' '' = []"
      using sp by (simp add: trim_def)
    ultimately show ?thesis using 1 c True by auto
  next
    case False
    from media_tail [OF False q(2) w rest] obtain c where
      c: "rx_run ?tail (q @ ?body) [] = Some (c, rest)" "cap c 1 = q" "cap c 2 = w"
      by blast
    have "\<not> is_space (hd (q @ ?body))"
      using trimmed_ends [OF q(1) False] False by simp
    then have "rx_run (Star is_space # ?tail) ('' '' @ q @ ?body) [] = Some (c, rest)"
      using sp c(1) by (intro star_greedy) simp_all
    then show ?thesis using 1 c q(1) by auto
  qed
qed

text \<open>The query of a match of the media pattern has no opening brace.\<close>

lemma mediaRegex_caps:
  assumes "rx_run mediaRegex t [] = Some (c, r)"
  shows "CHR ''{'' \<notin> set (cap c 1)"
proof -
  let ?nb = "\<lambda>ch. ch \<noteq> CHR ''{''"
  let ?LA = "[Star is_space, Opn 3, Alt (lit ''@media'') [Eos], Cls 3]"
  let ?E = "[Cls 2, Ch CHR ''}'', Ahead ?LA]"
  let ?M = "Star is_space # Ch CHR ''{'' # Opn 2 # Lazy (\<lambda>ch. True) # ?E"
  from assms obtain t1 where
    "rx_run (Star is_space # Opn 1 # Plus ?nb # Cls 1 # ?M) t1 [] = Some (c, r)"
    unfolding mediaRegex_eq using rx_run_lit_tail by fastforce
  from star_consumed [OF this] obtain t2 where
    "rx_run (Opn 1 # Plus ?nb # Cls 1 # ?M) t2 [] = Some (c, r)" by blast
  then obtain x t3 where t2: "t2 = x # t3" and x: "?nb x"
    and 3: "rx_run (Star ?nb # Cls 1 # ?M) t3 [(1, t2)] = Some (c, r)"
    by (cases t2) (auto split: if_splits)
  from star_consumed [OF 3] obtain a1 t4 where t3: "t3 = a1 @ t4" and a1: "\<forall>y\<in>set a1. ?nb y"
    and 4: "rx_run (Cls 1 # ?M) t4 [(1, t2)] = Some (c, r)" by blast
  define c1 where "c1 = close_group 1 t4 [(1, t2)]"
  have k1: "cap c1 1 = x # a1"
    unfolding c1_def t2 t3 using cap_close [of 1 t4 "x # a1" "[]"] by simp
  from 4 have "rx_run ?M t4 c1 = Some (c, r)" by (simp add: c1_def)
  from star_consumed [OF this] obtain t5 where
    "rx_run (Ch CHR ''{'' # Opn 2 # Lazy (\<lambda>ch. True) # ?E) t5 c1 = Some (c, r)" by blast
  then obtain t6 where
    "rx_run (Lazy (\<lambda>ch. True) # ?E) t6 ((2, t6) # c1) = Some (c, r)"
    by (cases t5) (auto split: if_splits)
  from lazy_consumed [OF this] obtain t7 where
    "rx_run ?E t7 ((2, t6) # c1) = Some (c, r)" by blast
  then obtain t8 where
    8: "rx_run [Ahead ?LA] t8 (close_group 2 t7 ((2, t6) # c1)) = Some (c, r)"
    by (cases t7) (auto split: if_splits)
  then obtain c' r' where
    "rx_run ?LA t8 (close_group 2 t7 ((2, t6) # c1)) = Some (c', r')" and "c = c'"
    by (auto split: option.splits)
  from ahead_caps [OF this(1)] this(2) have "cap c 1 = cap (close_group 2 t7 ((2, t6) # c1)) 1"
    by simp
  also have "\<dots> = cap c1 1"
    by (simp add: cap_close_other cap_other)
  finally have "cap c 1 = x # a1" using k1 by simp
  with x a1 show ?thesis by auto
qed

lemma rx_search_skip:
  assumes "\<forall>u v. T = u @ v \<and> v \<noteq> [] \<longrightarrow> rx_run ps (v @ s) [] = None"
    and "rx_run ps s [] = Some (c, r)"
  shows "rx_search ps (T @ s) = Some (T, c, r)"
  using assms(1)
proof (induction T)
  case Nil
  show ?case using rx_search_hit [OF assms(2)] by simp
next
  case (Cons x T)
  have "rx_run ps (x # T @ s) [] = None"
    using Cons.prems by (metis append_Cons append_Nil list.distinct(1))
  moreover have "\<forall>u v. T = u @ v \<and> v \<noteq> [] \<longrightarrow> rx_run ps (v @ s) [] = None"
  proof (intro allI impI)
    fix u v assume "T = u @ v \<and> v \<noteq> []"
    then have "x # T = (x # u) @ v \<and> v \<noteq> []" by simp
    with Cons.prems show "rx_run ps (v @ s) [] = None" by blast
  qed
  ultimately show ?case using Cons.IH by simp
qed

lemma media_not_in_top:
  assumes "\<not> includesStr T ''@media''" and "T = u @ v" and "v \<noteq> []" and "last T = CHR ''}''"
  shows "rx_run mediaRegex (v @ s) [] = None"
proof (cases "rx_run mediaRegex (v @ s) []")
  case None
  then show ?thesis .
next
  case (Some r)
  have "startsWith (v @ s) ''@media''"
    using Some unfolding mediaRegex_def by (rule rx_run_lit)
  moreover obtain v0 where v: "v = v0 @ [CHR ''}'']"
    using assms(2,3,4) by (metis append_butlast_last_id last_appendR)
  ultimately have "startsWith (v0 @ CHR ''}'' # s) ''@media''" by simp
  then have "startsWith v0 ''@media''" by (rule startsWith_cut) simp
  then obtain z where "v0 = ''@media'' @ z" unfolding startsWith_iff by blast
  then have "T = u @ ''@media'' @ (z @ [CHR ''}''])" using assms(2) v by simp
  then have "includesStr T ''@media''" unfolding includesStr_iff by blast
  with assms(1) show ?thesis by simp
qed

lemma media_texts_start:
  "concat (map (\<lambda>(q, w). media_text q w) bs) = []
   \<or> startsWith (concat (map (\<lambda>(q, w). media_text q w) bs)) ''@media''"
proof (cases bs)
  case Nil
  then show ?thesis by simp
next
  case (Cons b bs')
  obtain q w where "b = (q, w)" by (cases b)
  with Cons have "concat (map (\<lambda>(q, w). media_text q w) bs)
        = ''@media'' @ ('' '' @ q @ ''{'' @ w @ ''}'' @ concat (map (\<lambda>(q, w). media_text q w) bs'))"
    by (simp add: media_text_def)
  then show ?thesis unfolding startsWith_iff by blast
qed

text \<open>The media pattern finds the blocks that the optimizer wrote, one after the other.\<close>

lemma media_scan_blocks:
  assumes "\<forall>b\<in>set bs. trim (fst b) = fst b \<and> CHR ''{'' \<notin> set (fst b)
                     \<and> \<not> includesStr (snd b) ''@media''"
  shows "\<exists>ms. rx_scan mediaRegex (concat (map (\<lambda>(q, w). media_text q w) bs)) = (ms, [])
            \<and> concat (map fst ms) = []
            \<and> map (\<lambda>(pre, c). (trim (cap c 1), cap c 2)) ms = bs"
  using assms
proof (induction bs)
  case Nil
  have "rx_search mediaRegex [] = None" by (simp add: mediaRegex_def lit_def)
  then show ?case by (simp add: rx_scan_None)
next
  case (Cons b bs)
  obtain q w where b: "b = (q, w)" by (cases b)
  define rest where "rest = concat (map (\<lambda>(q, w). media_text q w) bs)"
  from Cons.prems b have q: "trim q = q" "CHR ''{'' \<notin> set q" and w: "\<not> includesStr w ''@media''"
    by auto
  have rest: "rest = [] \<or> startsWith rest ''@media''"
    unfolding rest_def by (rule media_texts_start)
  from mediaRegex_block [OF q w rest] obtain c where
    run: "rx_run mediaRegex (''@media '' @ q @ ''{'' @ w @ ''}'' @ rest) [] = Some (c, rest)"
    and c: "trim (cap c 1) = q" "cap c 2 = w" by blast
  have s: "concat (map (\<lambda>(q, w). media_text q w) (b # bs)) = ''@media '' @ q @ ''{'' @ w @ ''}'' @ rest"
    by (simp add: b rest_def media_text_def)
  from rx_scan_step [OF source_patterns_consume(2) rx_search_hit [OF run]]
  have sc: "rx_scan mediaRegex (''@media '' @ q @ ''{'' @ w @ ''}'' @ rest)
              = (([], c) # fst (rx_scan mediaRegex rest), snd (rx_scan mediaRegex rest))" .
  from Cons.IH Cons.prems obtain ms where
    ms: "rx_scan mediaRegex rest = (ms, [])" "concat (map fst ms) = []"
        "map (\<lambda>(pre, c). (trim (cap c 1), cap c 2)) ms = bs"
    unfolding rest_def by auto
  show ?case
    unfolding s sc using ms c b by simp
qed

lemma media_scan_output:
  assumes top: "\<not> includesStr T ''@media''" "T = [] \<or> last T = CHR ''}''"
    and bs: "\<forall>b\<in>set bs. trim (fst b) = fst b \<and> CHR ''{'' \<notin> set (fst b)
                     \<and> \<not> includesStr (snd b) ''@media''"
  shows "remove_all mediaRegex (T @ concat (map (\<lambda>(q, w). media_text q w) bs)) = T
       \<and> map (\<lambda>(pre, c). (trim (cap c 1), cap c 2))
              (fst (rx_scan mediaRegex (T @ concat (map (\<lambda>(q, w). media_text q w) bs)))) = bs"
proof (cases bs)
  case Nil
  then show ?thesis using no_media [OF top(1)] by (simp add: remove_all_def)
next
  case (Cons b bs')
  obtain q w where b: "b = (q, w)" by (cases b)
  define rest where "rest = concat (map (\<lambda>(q, w). media_text q w) bs')"
  define blk where "blk = ''@media '' @ q @ ''{'' @ w @ ''}'' @ rest"
  from bs Cons b have q: "trim q = q" "CHR ''{'' \<notin> set q" and w: "\<not> includesStr w ''@media''"
    by auto
  have rest: "rest = [] \<or> startsWith rest ''@media''"
    unfolding rest_def by (rule media_texts_start)
  from mediaRegex_block [OF q w rest] obtain c where
    run: "rx_run mediaRegex blk [] = Some (c, rest)"
    and c: "trim (cap c 1) = q" "cap c 2 = w" unfolding blk_def by blast
  have s: "T @ concat (map (\<lambda>(q, w). media_text q w) bs) = T @ blk"
    by (simp add: Cons b rest_def blk_def media_text_def)
  have "\<forall>u v. T = u @ v \<and> v \<noteq> [] \<longrightarrow> rx_run mediaRegex (v @ blk) [] = None"
  proof (intro allI impI)
    fix u v assume uv: "T = u @ v \<and> v \<noteq> []"
    then have "T \<noteq> []" by auto
    with top(2) have "last T = CHR ''}''" by simp
    with media_not_in_top [OF top(1)] uv show "rx_run mediaRegex (v @ blk) [] = None" by blast
  qed
  from rx_search_skip [OF this run] have "rx_search mediaRegex (T @ blk) = Some (T, c, rest)" .
  from rx_scan_step [OF source_patterns_consume(2) this]
  have sc: "rx_scan mediaRegex (T @ blk)
              = ((T, c) # fst (rx_scan mediaRegex rest), snd (rx_scan mediaRegex rest))" .
  from media_scan_blocks [of bs'] bs Cons obtain ms where
    ms: "rx_scan mediaRegex rest = (ms, [])" "concat (map fst ms) = []"
        "map (\<lambda>(pre, c). (trim (cap c 1), cap c 2)) ms = bs'"
    unfolding rest_def by auto
  show ?thesis
    unfolding s sc remove_all_def using ms c b Cons by simp
qed

lemma media_query_wf:
  assumes "m \<in> set (mediaRules (parseCSSRules css))"
  shows "trim (query m) = query m \<and> CHR ''{'' \<notin> set (query m)"
proof -
  define text1 where "text1 = remove_all commentRegex css"
  from assms obtain e where e: "e \<in> set (fst (rx_scan mediaRegex text1))"
    and m: "m = (case e of (pre, c) \<Rightarrow> \<lparr>query = trim (cap c 1), content = cap c 2\<rparr>)"
    by (auto simp: parseCSSRules_def Let_def text1_def)
  obtain pre c where ec: "e = (pre, c)" by (cases e)
  have "\<forall>c \<in> snd ` set (fst (rx_scan mediaRegex text1)). CHR ''{'' \<notin> set (cap c 1)"
    by (rule rx_scan_all) (rule mediaRegex_caps)
  with e ec have "CHR ''{'' \<notin> set (cap c 1)" by force
  then have "CHR ''{'' \<notin> set (trim (cap c 1))"
    using set_trim [of "cap c 1"] by auto
  then show ?thesis by (simp add: m ec trim_idem)
qed

section \<open>Properties of the optimizer\<close>

subsection \<open>The filter and the output\<close>

lemma drop_unused_filter:
  "drop_unused (Some used) g = filter (\<lambda>(k, v). \<not> droppable used k) g"
proof -
  have "\<And>k v. (k, v) \<in> set g \<Longrightarrow> k \<in> set (own_keys g)"
    by (force simp: set_own_keys)
  then show ?thesis
    by (auto simp: drop_unused_def fold_drop_filter intro!: filter_cong)
qed

lemma get_own_drop_unused:
  "get_own (drop_unused usedClasses g) sel =
     (case usedClasses of
        None \<Rightarrow> get_own g sel
      | Some used \<Rightarrow> if droppable used sel then None else get_own g sel)"
proof (cases usedClasses)
  case None
  then show ?thesis by (simp add: drop_unused_def)
next
  case (Some used)
  have "get_own g sel \<noteq> None \<Longrightarrow> sel \<in> set (own_keys g)"
    using has_own_get [of g sel] by (simp add: set_own_keys has_own_def)
  then show ?thesis
    using Some by (cases "get_own g sel") (auto simp: drop_unused_def get_own_fold_drop)
qed

lemma write_groups_includes:
  assumes "get_own g sel = Some ps"
  shows "includesStr (write_groups g) (sel @ ''{'' @ write_props ps @ ''}'')"
proof -
  have "sel \<in> set (own_keys g)"
    using assms has_own_get [of g sel] by (simp add: set_own_keys has_own_def)
  then obtain ks1 ks2 where ks: "own_keys g = ks1 @ sel # ks2"
    by (meson split_list)
  define f where "f = (\<lambda>sel. sel @ ''{''
                   @ (case get_own g sel of None \<Rightarrow> [] | Some ps \<Rightarrow> write_props ps) @ ''}'')"
  have "write_groups g = concat (map f ks1) @ f sel @ concat (map f ks2)"
    by (simp add: write_groups_def ks f_def)
  moreover have "f sel = sel @ ''{'' @ write_props ps @ ''}''"
    using assms by (simp add: f_def)
  ultimately show ?thesis
    unfolding includesStr_iff by metis
qed

lemma media_block_appends:
  "media_block usedClasses (h, out) m = Inr (h', out') \<Longrightarrow> \<exists>suf. out' = out @ suf"
  by (auto simp: media_block_def split: sum.splits if_splits)

lemma media_blocks_appends:
  "media_blocks usedClasses (h, out) ms = Inr (h', out') \<Longrightarrow> \<exists>suf. out' = out @ suf"
proof (induction ms arbitrary: h out)
  case Nil
  then show ?case by simp
next
  case (Cons m ms)
  from Cons.prems obtain h1 out1 where
    a: "media_block usedClasses (h, out) m = Inr (h1, out1)"
    and b: "media_blocks usedClasses (h1, out1) ms = Inr (h', out')"
    by (auto split: sum.splits)
  from media_block_appends [OF a] Cons.IH [OF b] show ?case by auto
qed

lemma optimizeCSS_in_top:
  assumes "optimizeCSS_in h css usedClasses = Inr (h', out)"
  shows "\<exists>h1 g suf. group_rules (h, []) (rules (parseCSSRules css)) = Inr (h1, g) \<and>
           out = write_groups (drop_unused usedClasses g) @ suf"
proof -
  from assms obtain h1 g' where
    a: "group_and_filter h (rules (parseCSSRules css)) usedClasses = Inr (h1, g')"
    and b: "media_blocks usedClasses (h1, write_groups g') (mediaRules (parseCSSRules css)) = Inr (h', out)"
    by (auto simp: optimizeCSS_in_def Let_def split: sum.splits)
  from a obtain g where
    c: "group_rules (h, []) (rules (parseCSSRules css)) = Inr (h1, g)"
    and d: "g' = drop_unused usedClasses g"
    by (auto simp: group_and_filter_def split: sum.splits if_splits)
  from media_blocks_appends [OF b] c d show ?thesis by auto
qed

lemma kept_in_output:
  assumes "optimizeCSS_in h css usedClasses = Inr (h', out)"
    and "group_rules (h, []) (rules (parseCSSRules css)) = Inr (h1, grouped)"
    and "get_own grouped sel = Some ps"
    and "\<forall>used. usedClasses = Some used \<longrightarrow> \<not> droppable used sel"
  shows "get_own (drop_unused usedClasses grouped) sel = Some ps \<and>
         includesStr out (sel @ ''{'' @ write_props ps @ ''}'')"
proof -
  from optimizeCSS_in_top [OF assms(1)] assms(2) obtain suf where
    out: "out = write_groups (drop_unused usedClasses grouped) @ suf" by auto
  have k: "get_own (drop_unused usedClasses grouped) sel = Some ps"
    using assms(3,4) by (simp add: get_own_drop_unused split: option.splits)
  from write_groups_includes [OF k] obtain a c where
    "write_groups (drop_unused usedClasses grouped) = a @ (sel @ ''{'' @ write_props ps @ ''}'') @ c"
    unfolding includesStr_iff by blast
  then have "out = a @ (sel @ ''{'' @ write_props ps @ ''}'') @ (c @ suf)"
    using out by simp
  then have "includesStr out (sel @ ''{'' @ write_props ps @ ''}'')"
    unfolding includesStr_iff by blast
  with k show ?thesis by simp
qed

text \<open>
  Claim C5.  For \<^verbatim>\<open>@media (max-width:600px){.x{color:red}}\<close> and any set of used classes
  that contains \<open>x\<close> the output is the block \<^verbatim>\<open>@media (max-width:600px){.x{color:red;}}\<close>;
  for the empty set of used classes no group is left in the block and the output is
  empty.
\<close>

theorem c5_media_block:
  assumes "''x'' \<in> used"
  shows "optimizeCSS ''@media (max-width:600px){.x{color:red}}'' (Some used)
           = Inr ''@media (max-width:600px){.x{color:red;}}''
       \<and> optimizeCSS ''@media (max-width:600px){.x{color:red}}'' (Some {}) = Inr []"
proof -
  have p: "parseCSSRules ''@media (max-width:600px){.x{color:red}}'' =
        \<lparr>rules = [], mediaRules = [\<lparr>query = ''(max-width:600px)'', content = ''.x{color:red}''\<rparr>]\<rparr>"
    by code_simp
  have q: "rules (parseCSSRules ''.x{color:red}'') = [\<lparr>selector = ''.x'', declarations = ''color:red''\<rparr>]"
    by code_simp
  have g: "group_rules (fresh_host, []) [\<lparr>selector = ''.x'', declarations = ''color:red''\<rparr>]
             = Inr (fresh_host, [(''.x'', [(''color'', ''red'')])])"
    by code_simp
  have ct: "class_tokens ''.x'' = [''.x'']"
    by code_simp
  have "\<not> droppable used ''.x''"
    using assms ct by (simp add: droppable_def)
  then have du: "drop_unused (Some used) [(''.x'', [(''color'', ''red'')])] = [(''.x'', [(''color'', ''red'')])]"
    by (simp add: drop_unused_filter)
  have w: "write_groups [(''.x'', [(''color'', ''red'')])] = ''.x{color:red;}''"
    by code_simp
  have k: "own_keys [(''.x'', [(''color'', ''red'')])] = [''.x'']"
    by code_simp
  have e: "write_groups ([] :: groups) = []" "drop_unused (Some used) [] = []"
    by (simp_all add: write_groups_def own_keys_def drop_unused_def)
  have gf0: "group_and_filter fresh_host [] (Some used) = Inr (fresh_host, [])"
    by (simp add: group_and_filter_def e fresh_host_def)
  have gf1: "group_and_filter fresh_host [\<lparr>selector = ''.x'', declarations = ''color:red''\<rparr>] (Some used)
               = Inr (fresh_host, [(''.x'', [(''color'', ''red'')])])"
    unfolding group_and_filter_def g by (simp add: du fresh_host_def)
  have mb: "media_block (Some used) (fresh_host, [])
              \<lparr>query = ''(max-width:600px)'', content = ''.x{color:red}''\<rparr>
            = Inr (fresh_host, ''@media (max-width:600px){.x{color:red;}}'')"
    unfolding media_block_def by (simp add: q gf1 k w)
  have 1: "optimizeCSS ''@media (max-width:600px){.x{color:red}}'' (Some used)
           = Inr ''@media (max-width:600px){.x{color:red;}}''"
    unfolding optimizeCSS_def optimizeCSS_in_def p by (simp add: gf0 e mb)
  have 2: "optimizeCSS ''@media (max-width:600px){.x{color:red}}'' (Some {}) = Inr []"
    by code_simp
  from 1 2 show ?thesis by simp
qed

text \<open>A set of used classes that contains \<open>x\<close>.\<close>

theorem c5_media_block_witness:
  "''x'' \<in> {''x'', ''y''}
   \<and> optimizeCSS ''@media (max-width:600px){.x{color:red}}'' (Some {''x'', ''y''})
       = Inr ''@media (max-width:600px){.x{color:red;}}''"
  using c5_media_block [of "{''x'', ''y''}"] by simp


subsection \<open>The grouping loop\<close>

lemma put_same: "get_own g k = Some v \<Longrightarrow> put g k v = g"
  by (induction g) (auto simp: get_own_def split: if_splits)

lemma put_put: "put (put g k a) k b = put g k b"
  by (induction g) auto

lemma put_new: "\<not> has_own g k \<Longrightarrow> put g k v = g @ [(k, v)]"
  by (induction g) (auto simp: has_own_def)

lemma resolve_Own: "(resolve h g k = Own) = has_own g k"
  by (simp add: resolve_def)

lemma assign_all_own:
  assumes "get_own g sel = Some ps"
  shows "assign_all (h, g) sel ds = Inr (h, put g sel (merge_props ps ds))"
  using assms
proof (induction ds arbitrary: g ps)
  case Nil
  then show ?case by (simp add: put_same)
next
  case (Cons d ds)
  obtain pr vl where d: "d = (pr, vl)" by (cases d)
  have own: "resolve h g sel = Own"
    using Cons.prems by (simp add: resolve_Own has_own_get)
  show ?case
  proof (cases "pr = ''__proto__''")
    case True
    then have "assign (h, g) sel d = Inr (h, g)"
      using own d by (simp add: assign_def)
    then show ?thesis using Cons.IH [OF Cons.prems] d True by simp
  next
    case False
    then have a: "assign (h, g) sel d = Inr (h, put g sel (put ps pr vl))"
      using own d Cons.prems by (simp add: assign_def)
    have "get_own (put g sel (put ps pr vl)) sel = Some (put ps pr vl)"
      by (simp add: get_own_put)
    from Cons.IH [OF this] a d False show ?thesis by (simp add: put_put)
  qed
qed

text \<open>
  When the loop over the declarations of a rule returns, it has made the assignments of
  the declarations that pass, and only them.
\<close>

lemma set_decls_assign:
  "set_decls st sel ds = Inr st' \<Longrightarrow> assign_all st sel (List.map_filter parse_decl ds) = Inr st'"
proof (induction ds arbitrary: st)
  case Nil
  then show ?case by (simp add: List.map_filter_simps)
next
  case (Cons d ds)
  from Cons.prems obtain st1 where
    a: "set_decl st sel d = Inr st1" and b: "set_decls st1 sel ds = Inr st'"
    by (auto split: sum.splits)
  show ?case
  proof (cases "parse_decl d")
    case None
    with a have "st1 = st"
      by (cases st) (auto simp: set_decl_def split: if_splits)
    with Cons.IH [OF b] None show ?thesis by (simp add: List.map_filter_simps)
  next
    case (Some pv)
    with a have "assign st sel pv = Inr st1"
      by (cases st) (auto simp: set_decl_def split: if_splits)
    with Cons.IH [OF b] Some show ?thesis by (simp add: List.map_filter_simps)
  qed
qed

lemma group_rule_assign:
  assumes "group_rule (h, g) r = Inr st'"
  shows "assign_all (h, if resolve h g (selector r) = Undefined then put g (selector r) [] else g)
           (selector r) (rule_decls r) = Inr st'"
  using assms set_decls_assign by (simp add: group_rule_def rule_decls_def Let_def)

text \<open>
  In a page where no string has been put on \<^verbatim>\<open>Object.prototype\<close> under the name
  \<^verbatim>\<open>return\<close>, the loop over the declarations of an own selector returns.
\<close>

lemma set_decls_own:
  assumes "''return'' \<notin> set (polluted h)" and "get_own g sel = Some ps"
  shows "set_decls (h, g) sel ds = Inr (h, put g sel (merge_props ps (List.map_filter parse_decl ds)))"
  using assms(2)
proof (induction ds arbitrary: g ps)
  case Nil
  then show ?case by (simp add: put_same List.map_filter_simps)
next
  case (Cons d ds)
  show ?case
  proof (cases "parse_decl d")
    case None
    then have "set_decl (h, g) sel d = Inr (h, g)"
      using assms(1) by (simp add: set_decl_def)
    with Cons.IH [OF Cons.prems] None show ?thesis by (simp add: List.map_filter_simps)
  next
    case (Some pv)
    obtain pr vl where pv: "pv = (pr, vl)" by (cases pv)
    have own: "resolve h g sel = Own"
      using Cons.prems by (simp add: resolve_Own has_own_get)
    show ?thesis
    proof (cases "pr = ''__proto__''")
      case True
      then have "set_decl (h, g) sel d = Inr (h, g)"
        using assms(1) own Some pv by (simp add: set_decl_def assign_def)
      with Cons.IH [OF Cons.prems] Some pv True show ?thesis by (simp add: List.map_filter_simps)
    next
      case False
      then have a: "set_decl (h, g) sel d = Inr (h, put g sel (put ps pr vl))"
        using assms(1) own Some pv Cons.prems by (simp add: set_decl_def assign_def)
      have "get_own (put g sel (put ps pr vl)) sel = Some (put ps pr vl)"
        by (simp add: get_own_put)
      from Cons.IH [OF this] a Some pv False show ?thesis
        by (simp add: put_put List.map_filter_simps)
    qed
  qed
qed

lemma group_rule_new:
  assumes "''return'' \<notin> set (polluted h)" and "resolve h g (selector r) = Undefined"
  shows "group_rule (h, g) r = Inr (h, g @ [(selector r, merge_props [] (rule_decls r))])"
proof -
  have n: "\<not> has_own g (selector r)"
    using assms(2) by (auto simp: resolve_def split: if_splits)
  have "get_own (put g (selector r) []) (selector r) = Some []"
    by (simp add: get_own_put)
  from set_decls_own [OF assms(1) this] have
    "set_decls (h, put g (selector r) []) (selector r) (split_char CHR '';'' (declarations r)) =
       Inr (h, put g (selector r) (merge_props [] (rule_decls r)))"
    by (simp add: put_put rule_decls_def)
  then show ?thesis
    using assms(2) n by (simp add: group_rule_def put_new)
qed

text \<open>A selector that resolves through the prototype leaves the grouping as it is.\<close>

lemma assign_inherited:
  assumes "\<not> has_own g sel" and "assign (h, g) sel d = Inr (h', g')"
  shows "g' = g \<and> set (polluted h) \<subseteq> set (polluted h') \<and> (keys_lost h \<longrightarrow> keys_lost h')
         \<and> (sel \<noteq> ''__proto__'' \<longrightarrow> polluted h' = polluted h)"
  using assms
  by (cases d) (auto simp: assign_def resolve_def split: if_splits target.splits)

lemma assign_all_inherited:
  assumes "\<not> has_own g sel" and "assign_all (h, g) sel ds = Inr (h', g')"
  shows "g' = g \<and> set (polluted h) \<subseteq> set (polluted h') \<and> (keys_lost h \<longrightarrow> keys_lost h')
         \<and> (sel \<noteq> ''__proto__'' \<longrightarrow> polluted h' = polluted h)"
  using assms
proof (induction ds arbitrary: h)
  case Nil
  then show ?case by simp
next
  case (Cons d ds)
  from Cons.prems(2) obtain h1 g1 where
    a: "assign (h, g) sel d = Inr (h1, g1)" and b: "assign_all (h1, g1) sel ds = Inr (h', g')"
    by (auto split: sum.splits)
  from assign_inherited [OF Cons.prems(1) a] have g1: "g1 = g"
    and p1: "set (polluted h) \<subseteq> set (polluted h1)" and k1: "keys_lost h \<longrightarrow> keys_lost h1"
    and q1: "sel \<noteq> ''__proto__'' \<longrightarrow> polluted h1 = polluted h" by auto
  from Cons.IH [OF Cons.prems(1)] b g1 have "g' = g"
    and "set (polluted h1) \<subseteq> set (polluted h')" and "keys_lost h1 \<longrightarrow> keys_lost h'"
    and "sel \<noteq> ''__proto__'' \<longrightarrow> polluted h' = polluted h1" by auto
  with p1 k1 q1 show ?case by auto
qed

text \<open>The three cases of one round of the grouping loop.\<close>

lemma group_rule_cases:
  assumes "group_rule (h, g) r = Inr (h', g')"
  shows "(\<exists>ps. get_own g (selector r) = Some ps \<and> h' = h
            \<and> g' = put g (selector r) (merge_props ps (rule_decls r)))
       \<or> (resolve h g (selector r) = Undefined \<and> h' = h
            \<and> g' = g @ [(selector r, merge_props [] (rule_decls r))])
       \<or> (resolve h g (selector r) \<in> {Primitive, ObjectPrototype, BuiltinFunction} \<and> g' = g
            \<and> set (polluted h) \<subseteq> set (polluted h') \<and> (keys_lost h \<longrightarrow> keys_lost h')
            \<and> (selector r \<noteq> ''__proto__'' \<longrightarrow> polluted h' = polluted h))"
proof -
  note run = group_rule_assign [OF assms]
  show ?thesis
  proof (cases "resolve h g (selector r)")
    case Own
    then obtain ps where ps: "get_own g (selector r) = Some ps"
      by (auto simp: resolve_Own has_own_get)
    from run Own assign_all_own [OF ps, of h "rule_decls r"] ps show ?thesis by auto
  next
    case Undefined
    then have n: "\<not> has_own g (selector r)"
      by (auto simp: resolve_def split: if_splits)
    have "get_own (put g (selector r) []) (selector r) = Some []"
      by (simp add: get_own_put)
    from assign_all_own [OF this, of h "rule_decls r"] run Undefined
    have "h' = h" "g' = put (put g (selector r) []) (selector r) (merge_props [] (rule_decls r))"
      by simp_all
    moreover have "put (put g (selector r) []) (selector r) (merge_props [] (rule_decls r))
                     = g @ [(selector r, merge_props [] (rule_decls r))]"
      by (subst put_put) (rule put_new [OF n])
    ultimately show ?thesis using Undefined by simp
  next
    case Primitive
    then have n: "\<not> has_own g (selector r)" by (auto simp: resolve_def split: if_splits)
    from run Primitive have "assign_all (h, g) (selector r) (rule_decls r) = Inr (h', g')"
      by simp
    from assign_all_inherited [OF n this] Primitive show ?thesis by auto
  next
    case ObjectPrototype
    then have n: "\<not> has_own g (selector r)" by (auto simp: resolve_def split: if_splits)
    from run ObjectPrototype have "assign_all (h, g) (selector r) (rule_decls r) = Inr (h', g')"
      by simp
    from assign_all_inherited [OF n this] ObjectPrototype show ?thesis by auto
  next
    case BuiltinFunction
    then have n: "\<not> has_own g (selector r)" by (auto simp: resolve_def split: if_splits)
    from run BuiltinFunction have "assign_all (h, g) (selector r) (rule_decls r) = Inr (h', g')"
      by simp
    from assign_all_inherited [OF n this] BuiltinFunction show ?thesis by auto
  qed
qed


lemma get_own_merge_props:
  "get_own (merge_props ps ds) p =
     (if p = ''__proto__'' then get_own ps p
      else (case map_of (rev ds) p of Some v \<Rightarrow> Some v | None \<Rightarrow> get_own ps p))"
proof (induction ds arbitrary: ps)
  case Nil
  then show ?case by simp
next
  case (Cons d ds)
  obtain q v where d: "d = (q, v)" by (cases d)
  show ?case
    using Cons.IH [of "if q = ''__proto__'' then ps else put ps q v"] d
    by (auto simp: get_own_put map_add_def split: option.splits)
qed

lemma distinct_put: "distinct (map fst g) \<Longrightarrow> distinct (map fst (put g k v))"
  by (auto simp: keys_put has_own_def)

lemma distinct_merge_props: "distinct (map fst ps) \<Longrightarrow> distinct (map fst (merge_props ps ds))"
  by (induction ds arbitrary: ps) (auto simp: distinct_put)

lemma group_rules_append:
  "group_rules st (xs @ ys) =
     (case group_rules st xs of Inl e \<Rightarrow> Inl e | Inr st' \<Rightarrow> group_rules st' ys)"
  by (induction xs arbitrary: st) (auto split: sum.splits)

lemma get_own_snoc:
  "get_own (g @ [(k, v)]) k' =
     (case get_own g k' of Some x \<Rightarrow> Some x | None \<Rightarrow> if k' = k then Some v else None)"
  by (auto simp: get_own_def map_add_def split: option.splits)

lemma set_put_subset: "set (put g k v) \<subseteq> insert (k, v) (set g)"
  by (induction g) (auto split: if_splits)

lemma group_rule_other:
  assumes "group_rule (h, g) r = Inr (h', g')" and "selector r \<noteq> s"
  shows "get_own g' s = get_own g s"
  using group_rule_cases [OF assms(1)] assms(2)
  by (auto simp: get_own_put get_own_snoc split: option.splits)

lemma group_rules_other:
  assumes "group_rules (h, g) rs = Inr (h', g')" and "\<forall>r\<in>set rs. selector r \<noteq> s"
  shows "get_own g' s = get_own g s"
  using assms
proof (induction rs arbitrary: h g)
  case Nil
  then show ?case by simp
next
  case (Cons r rs)
  from Cons.prems(1) obtain h1 g1 where
    a: "group_rule (h, g) r = Inr (h1, g1)" and b: "group_rules (h1, g1) rs = Inr (h', g')"
    by (auto split: sum.splits)
  from group_rule_other [OF a] Cons.prems(2) have "get_own g1 s = get_own g s" by simp
  moreover from Cons.IH [OF b] Cons.prems(2) have "get_own g' s = get_own g1 s" by simp
  ultimately show ?case by simp
qed

lemma group_rule_distinct:
  assumes "group_rule (h, g) r = Inr (h', g')" and "distinct (map fst g)"
  shows "distinct (map fst g')"
  using group_rule_cases [OF assms(1)] assms(2)
  by (auto simp: distinct_put resolve_def has_own_def split: if_splits)

lemma group_rules_distinct:
  assumes "group_rules (h, g) rs = Inr (h', g')" and "distinct (map fst g)"
  shows "distinct (map fst g')"
  using assms
proof (induction rs arbitrary: h g)
  case Nil
  then show ?case by simp
next
  case (Cons r rs)
  from Cons.prems(1) obtain h1 g1 where
    a: "group_rule (h, g) r = Inr (h1, g1)" and b: "group_rules (h1, g1) rs = Inr (h', g')"
    by (auto split: sum.splits)
  from Cons.IH [OF b group_rule_distinct [OF a Cons.prems(2)]] show ?case .
qed

text \<open>After the round of a rule its selector holds the merged declarations.\<close>

lemma group_rule_props_distinct:
  assumes "group_rule (h, g) r = Inr (h', g')" and "props_distinct g"
  shows "props_distinct g'"
proof -
  from group_rule_cases [OF assms(1)] consider
    ps where "get_own g (selector r) = Some ps" "g' = put g (selector r) (merge_props ps (rule_decls r))"
    | "g' = g @ [(selector r, merge_props [] (rule_decls r))]"
    | "g' = g" by blast
  then show ?thesis
  proof cases
    case 1
    from 1(1) have "(selector r, ps) \<in> set g"
      by (simp add: get_own_def map_of_SomeD)
    then have "distinct (map fst ps)"
      using assms(2) by (force simp: props_distinct_def)
    then have "distinct (map fst (merge_props ps (rule_decls r)))"
      by (rule distinct_merge_props)
    then show ?thesis
      using assms(2) set_put_subset [of g "selector r" "merge_props ps (rule_decls r)"]
      unfolding props_distinct_def 1(2) by force
  next
    case 2
    have "distinct (map fst (merge_props [] (rule_decls r)))"
      by (rule distinct_merge_props) simp
    then show ?thesis
      using assms(2) unfolding props_distinct_def 2 by auto
  next
    case 3
    then show ?thesis using assms(2) by simp
  qed
qed

lemma group_rules_props_distinct:
  assumes "group_rules (h, g) rs = Inr (h', g')" and "props_distinct g"
  shows "props_distinct g'"
  using assms
proof (induction rs arbitrary: h g)
  case Nil
  then show ?case by simp
next
  case (Cons r rs)
  from Cons.prems(1) obtain h1 g1 where
    a: "group_rule (h, g) r = Inr (h1, g1)" and b: "group_rules (h1, g1) rs = Inr (h', g')"
    by (auto split: sum.splits)
  from Cons.IH [OF b group_rule_props_distinct [OF a Cons.prems(2)]] show ?case .
qed

lemma group_rule_selector:
  assumes "group_rule (h, g) r = Inr (h', g')"
    and "selector r \<notin> set (polluted h)" and "selector r \<notin> set proto_methods"
    and "selector r \<noteq> ''__proto__''"
  shows "\<exists>ps. get_own g' (selector r) = Some (merge_props ps (rule_decls r))"
proof -
  have "resolve h g (selector r) \<notin> {Primitive, ObjectPrototype, BuiltinFunction}"
    using assms(2,3,4) by (simp add: resolve_def)
  with group_rule_cases [OF assms(1)] consider
    ps where "g' = put g (selector r) (merge_props ps (rule_decls r))"
    | "resolve h g (selector r) = Undefined" "g' = g @ [(selector r, merge_props [] (rule_decls r))]"
    by blast
  then show ?thesis
  proof cases
    case 1
    then show ?thesis by (auto simp: get_own_put)
  next
    case 2
    from 2(1) have "get_own g (selector r) = None"
      using has_own_get [of g "selector r"] by (auto simp: resolve_def split: if_splits)
    then have "get_own g' (selector r) = Some (merge_props [] (rule_decls r))"
      by (simp add: 2(2) get_own_snoc)
    then show ?thesis by blast
  qed
qed

lemma count_list_distinct: "distinct xs \<Longrightarrow> x \<in> set xs \<Longrightarrow> count_list xs x = 1"
  by (induction xs) (auto simp: count_list_0_iff)

lemma write_props_includes:
  assumes "get_own ps p = Some v"
  shows "includesStr (write_props ps) (p @ '':'' @ v @ '';'')"
proof -
  have "p \<in> set (own_keys ps)"
    using assms has_own_get [of ps p] by (simp add: set_own_keys has_own_def)
  then obtain ks1 ks2 where ks: "own_keys ps = ks1 @ p # ks2"
    by (meson split_list)
  define f where "f = (\<lambda>prop. prop @ '':'' @ (case get_own ps prop of None \<Rightarrow> [] | Some val \<Rightarrow> val) @ '';'')"
  have "write_props ps = concat (map f ks1) @ f p @ concat (map f ks2)"
    by (simp add: write_props_def ks f_def)
  moreover have "f p = p @ '':'' @ v @ '';''"
    using assms by (simp add: f_def)
  ultimately show ?thesis
    unfolding includesStr_iff by metis
qed

text \<open>
  The names on \<^verbatim>\<open>Object.prototype\<close> after the grouping loop are those before it and
  property names that rules with the selector \<^verbatim>\<open>__proto__\<close> declare.
\<close>

lemma proto_props_Cons:
  "proto_props (r # rs) =
     (if selector r = ''__proto__'' then map fst (rule_decls r) else []) @ proto_props rs"
  by (simp add: proto_props_def)

lemma proto_props_append: "proto_props (xs @ ys) = proto_props xs @ proto_props ys"
  by (simp add: proto_props_def)

lemma assign_polluted:
  assumes "assign (h, g) sel d = Inr (h', g')"
  shows "set (polluted h') \<subseteq> set (polluted h) \<union> (if sel = ''__proto__'' then {fst d} else {})"
  using assms
  by (cases d) (auto simp: assign_def resolve_def split: if_splits target.splits option.splits)

lemma assign_all_polluted:
  assumes "assign_all (h, g) sel ds = Inr (h', g')"
  shows "set (polluted h') \<subseteq> set (polluted h) \<union> (if sel = ''__proto__'' then fst ` set ds else {})"
  using assms
proof (induction ds arbitrary: h g)
  case Nil
  then show ?case by simp
next
  case (Cons d ds)
  from Cons.prems obtain h1 g1 where
    a: "assign (h, g) sel d = Inr (h1, g1)" and b: "assign_all (h1, g1) sel ds = Inr (h', g')"
    by (auto split: sum.splits)
  from assign_polluted [OF a] Cons.IH [OF b] show ?case
    by (auto split: if_splits)
qed

lemma group_rule_polluted:
  assumes "group_rule (h, g) r = Inr (h', g')"
  shows "set (polluted h') \<subseteq> set (polluted h) \<union> set (proto_props [r])"
proof -
  from group_rule_assign [OF assms]
  obtain g1 where "assign_all (h, g1) (selector r) (rule_decls r) = Inr (h', g')"
    by blast
  from assign_all_polluted [OF this] show ?thesis
    by (auto simp: proto_props_def split: if_splits)
qed

lemma group_rules_polluted:
  assumes "group_rules (h, g) rs = Inr (h', g')"
  shows "set (polluted h') \<subseteq> set (polluted h) \<union> set (proto_props rs)"
  using assms
proof (induction rs arbitrary: h g)
  case Nil
  then show ?case by simp
next
  case (Cons r rs)
  from Cons.prems obtain h1 g1 where
    a: "group_rule (h, g) r = Inr (h1, g1)" and b: "group_rules (h1, g1) rs = Inr (h', g')"
    by (auto split: sum.splits)
  have "proto_props (r # rs) = proto_props [r] @ proto_props rs"
    by (simp add: proto_props_def)
  with group_rule_polluted [OF a] Cons.IH [OF b] show ?case
    by auto
qed

lemma group_rule_keeps:
  assumes "group_rule (h, g) r = Inr (h', g')" and "get_own g k \<noteq> None"
  shows "get_own g' k \<noteq> None"
  using group_rule_cases [OF assms(1)] assms(2)
  by (auto simp: get_own_put get_own_snoc split: option.splits)

lemma group_rules_keeps:
  assumes "group_rules (h, g) rs = Inr (h', g')" and "get_own g k \<noteq> None"
  shows "get_own g' k \<noteq> None"
  using assms
proof (induction rs arbitrary: h g)
  case Nil
  then show ?case by simp
next
  case (Cons r rs)
  from Cons.prems(1) obtain h1 g1 where
    a: "group_rule (h, g) r = Inr (h1, g1)" and b: "group_rules (h1, g1) rs = Inr (h', g')"
    by (auto split: sum.splits)
  from Cons.IH [OF b group_rule_keeps [OF a Cons.prems(2)]] show ?case .
qed

lemma group_rules_enters:
  assumes "group_rules (h, g) rs = Inr (h', g')" and "r \<in> set rs"
    and "selector r \<notin> set (polluted h)" and "selector r \<notin> set (proto_props rs)"
    and "selector r \<notin> set proto_methods" and "selector r \<noteq> ''__proto__''"
  shows "\<exists>ps. get_own g' (selector r) = Some ps"
proof -
  from assms(2) obtain xs ys where rs: "rs = xs @ r # ys" by (meson split_list)
  from assms(1) obtain ha ga hb gb where
    a: "group_rules (h, g) xs = Inr (ha, ga)"
    and b: "group_rule (ha, ga) r = Inr (hb, gb)"
    and c: "group_rules (hb, gb) ys = Inr (h', g')"
    unfolding rs by (auto simp: group_rules_append split: sum.splits)
  have "selector r \<notin> set (polluted ha)"
    using group_rules_polluted [OF a] assms(3,4) by (auto simp: rs proto_props_append)
  from group_rule_selector [OF b this assms(5,6)] have "get_own gb (selector r) \<noteq> None" by auto
  from group_rules_keeps [OF c this] show ?thesis by auto
qed

lemma group_and_filter_Inr:
  assumes "group_and_filter h rs usedClasses = Inr (h', g')"
  shows "\<exists>g. group_rules (h, []) rs = Inr (h', g) \<and> g' = drop_unused usedClasses g \<and> \<not> keys_lost h'"
  using assms by (auto simp: group_and_filter_def split: sum.splits if_splits)

text \<open>
  Claim C1, as amended.  Let the optimizer return \<open>out\<close>, in a page with untouched
  built-in objects, and let the selector text \<open>s\<close> be that of two top-level rules that
  the parser delivers, the later of them the last top-level rule of \<open>s\<close>.  Let \<open>s\<close> be no
  member of \<^verbatim>\<open>Object.prototype\<close> and no property that a top-level rule with the selector
  \<^verbatim>\<open>__proto__\<close> declares.  Then \<open>out\<close> begins with the top-level grouping written out,
  after the filter.  If the filter deletes \<open>s\<close> (a set of used classes is given, \<open>s\<close>
  has a class token that is not used, and \<open>s\<close> has no colon), that grouping has no group
  of \<open>s\<close>.  Otherwise it has exactly one group of \<open>s\<close>; the group is in \<open>out\<close>; and a
  property other than \<^verbatim>\<open>__proto__\<close> that both rules declare has one entry in the group,
  written with the value of its last declaration in the later rule.
\<close>

theorem c1_duplicate_selectors_merged:
  assumes run: "optimizeCSS css usedClasses = Inr out"
    and rs: "rs = rules (parseCSSRules css)"
    and occ: "i < j" "j < length rs" "selector (rs ! i) = s" "selector (rs ! j) = s"
    and later: "\<forall>k. j < k \<and> k < length rs \<longrightarrow> selector (rs ! k) \<noteq> s"
    and own: "s \<notin> set proto_methods" "s \<noteq> ''__proto__''" "s \<notin> set (proto_props rs)"
  shows "\<exists>h1 grouped rest.
           group_and_filter fresh_host rs usedClasses = Inr (h1, grouped)
         \<and> out = write_groups grouped @ rest
         \<and> (if \<exists>used. usedClasses = Some used \<and> droppable used s
            then count_list (own_keys grouped) s = 0
            else count_list (own_keys grouped) s = 1
               \<and> (\<exists>ps. get_own grouped s = Some ps
                      \<and> includesStr out (s @ ''{'' @ write_props ps @ ''}'')
                      \<and> (\<forall>p v. p \<noteq> ''__proto__'' \<and> map_of (rule_decls (rs ! i)) p \<noteq> None
                                \<and> map_of (rev (rule_decls (rs ! j))) p = Some v
                            \<longrightarrow> get_own ps p = Some v \<and> count_list (own_keys ps) p = 1
                               \<and> includesStr (write_props ps) (p @ '':'' @ v @ '';''))))"
proof -
  from run obtain h' where run': "optimizeCSS_in fresh_host css usedClasses = Inr (h', out)"
    by (auto simp: optimizeCSS_def split: sum.splits)
  then obtain h1 grouped where
    gf: "group_and_filter fresh_host rs usedClasses = Inr (h1, grouped)"
    by (auto simp: optimizeCSS_in_def Let_def rs split: sum.splits)
  from group_and_filter_Inr [OF gf] obtain g0 where
    g0: "group_rules (fresh_host, []) rs = Inr (h1, g0)"
    and grouped: "grouped = drop_unused usedClasses g0"
    by blast
  from optimizeCSS_in_top [OF run'] g0 grouped rs obtain rest where
    out: "out = write_groups grouped @ rest" by auto
  \<comment> \<open>the rules before, at and after the later occurrence\<close>
  have split: "rs = take j rs @ rs ! j # drop (Suc j) rs"
    using occ(2) by (simp add: id_take_nth_drop)
  from g0 obtain ha ga hb gb where
    a: "group_rules (fresh_host, []) (take j rs) = Inr (ha, ga)"
    and b: "group_rule (ha, ga) (rs ! j) = Inr (hb, gb)"
    and c: "group_rules (hb, gb) (drop (Suc j) rs) = Inr (h1, g0)"
    by (subst (asm) split) (auto simp: group_rules_append split: sum.splits)
  have "set (proto_props (take j rs)) \<subseteq> set (proto_props rs)"
    by (subst (2) split) (simp add: proto_props_append)
  with group_rules_polluted [OF a] own(3) have pa: "selector (rs ! j) \<notin> set (polluted ha)"
    by (auto simp: fresh_host_def occ(4))
  from group_rule_selector [OF b pa] own(1,2) occ(4) obtain ps0 where
    gb: "get_own gb s = Some (merge_props ps0 (rule_decls (rs ! j)))" by auto
  have "\<forall>r\<in>set (drop (Suc j) rs). selector r \<noteq> s"
  proof
    fix r assume "r \<in> set (drop (Suc j) rs)"
    then obtain n where n: "n < length (drop (Suc j) rs)" "r = drop (Suc j) rs ! n"
      by (auto simp: in_set_conv_nth)
    then have "r = rs ! (Suc j + n)" "Suc j + n < length rs" by auto
    with later show "selector r \<noteq> s" by auto
  qed
  from group_rules_other [OF c this] gb have
    g0s: "get_own g0 s = Some (merge_props ps0 (rule_decls (rs ! j)))" by simp
  define ps where "ps = merge_props ps0 (rule_decls (rs ! j))"
  have "distinct (map fst g0)"
    using group_rules_distinct [OF g0] by simp
  then have "distinct (map fst grouped)"
    by (cases usedClasses) (simp_all add: grouped drop_unused_def fold_drop_filter distinct_map_filter)
  then have d: "distinct (own_keys grouped)" by (rule distinct_own_keys)
  show ?thesis
  proof (cases "\<exists>used. usedClasses = Some used \<and> droppable used s")
    case True
    then have "get_own grouped s = None"
      by (auto simp: grouped get_own_drop_unused)
    then have "s \<notin> set (own_keys grouped)"
      using own_key_get [of s grouped] by auto
    then have "count_list (own_keys grouped) s = 0"
      by (simp add: count_list_0_iff)
    with gf out True show ?thesis by auto
  next
    case False
    then have gs: "get_own grouped s = Some ps"
      using g0s by (auto simp: grouped get_own_drop_unused ps_def split: option.splits)
    \<comment> \<open>one group\<close>
    have "s \<in> set (own_keys grouped)"
      using gs by (rule get_own_Some_key)
    with d have one: "count_list (own_keys grouped) s = 1" by (rule count_list_distinct)
    \<comment> \<open>the group is written\<close>
    from write_groups_includes [OF gs] out have inc: "includesStr out (s @ ''{'' @ write_props ps @ ''}'')"
      unfolding includesStr_iff by (metis append.assoc)
    \<comment> \<open>last write wins\<close>
    have val: "\<forall>p v. p \<noteq> ''__proto__'' \<and> map_of (rule_decls (rs ! i)) p \<noteq> None
                          \<and> map_of (rev (rule_decls (rs ! j))) p = Some v
                      \<longrightarrow> get_own ps p = Some v \<and> count_list (own_keys ps) p = 1
                         \<and> includesStr (write_props ps) (p @ '':'' @ v @ '';'')"
    proof (intro allI impI)
      fix p v
      assume h: "p \<noteq> ''__proto__'' \<and> map_of (rule_decls (rs ! i)) p \<noteq> None
                          \<and> map_of (rev (rule_decls (rs ! j))) p = Some v"
      then have gv: "get_own ps p = Some v"
        by (simp add: ps_def get_own_merge_props)
      have "props_distinct g0"
        using group_rules_props_distinct [OF g0] by (simp add: props_distinct_def)
      moreover have "(s, ps) \<in> set g0"
        using g0s by (simp add: ps_def get_own_def map_of_SomeD)
      ultimately have "distinct (map fst ps)"
        by (force simp: props_distinct_def)
      then have "distinct (own_keys ps)"
        by (rule distinct_own_keys)
      moreover have "p \<in> set (own_keys ps)"
        using gv by (rule get_own_Some_key)
      ultimately show "get_own ps p = Some v \<and> count_list (own_keys ps) p = 1
                         \<and> includesStr (write_props ps) (p @ '':'' @ v @ '';'')"
        using gv write_props_includes [OF gv] by (simp add: count_list_distinct)
    qed
    from gf out False one gs inc val show ?thesis by auto
  qed
qed

text \<open>
  The hypotheses hold for \<^verbatim>\<open>.a{x:1;y:2}.a{x:3}\<close>: with the used class \<open>a\<close> it gives
  \<^verbatim>\<open>.a{x:3;y:2;}\<close>, and with no used class the filter deletes the selector.
\<close>

theorem c1_duplicate_selectors_merged_witness:
  "optimizeCSS ''.a{x:1;y:2}.a{x:3}'' (Some {''a''}) = Inr ''.a{x:3;y:2;}''
   \<and> \<not> droppable {''a''} ''.a''
   \<and> (\<exists>h1 grouped rest ps.
         group_and_filter fresh_host (rules (parseCSSRules ''.a{x:1;y:2}.a{x:3}'')) (Some {''a''})
           = Inr (h1, grouped)
         \<and> ''.a{x:3;y:2;}'' = write_groups grouped @ rest
         \<and> count_list (own_keys grouped) ''.a'' = 1
         \<and> get_own grouped ''.a'' = Some ps
         \<and> get_own ps ''x'' = Some ''3'' \<and> count_list (own_keys ps) ''x'' = 1
         \<and> includesStr (write_props ps) ''x:3;'')
   \<and> optimizeCSS ''.a{x:1;y:2}.a{x:3}'' (Some {}) = Inr []
   \<and> droppable {} ''.a''
   \<and> (\<exists>h1 grouped rest.
         group_and_filter fresh_host (rules (parseCSSRules ''.a{x:1;y:2}.a{x:3}'')) (Some {})
           = Inr (h1, grouped)
         \<and> [] = write_groups grouped @ rest
         \<and> count_list (own_keys grouped) ''.a'' = 0)"
proof -
  define css where "css = ''.a{x:1;y:2}.a{x:3}''"
  define rs where "rs = [\<lparr>selector = ''.a'', declarations = ''x:1;y:2''\<rparr>,
                          \<lparr>selector = ''.a'', declarations = ''x:3''\<rparr>]"
  have run1: "optimizeCSS css (Some {''a''}) = Inr ''.a{x:3;y:2;}''"
    unfolding css_def by code_simp
  have run2: "optimizeCSS css (Some {}) = Inr []"
    unfolding css_def by code_simp
  have rs: "rs = rules (parseCSSRules css)"
    unfolding rs_def css_def by code_simp
  have occ: "(0::nat) < 1" "1 < length rs" "selector (rs ! 0) = ''.a''" "selector (rs ! 1) = ''.a''"
    by (simp_all add: rs_def)
  have later: "\<forall>k. 1 < k \<and> k < length rs \<longrightarrow> selector (rs ! k) \<noteq> ''.a''"
    by (simp add: rs_def)
  have own: "''.a'' \<notin> set proto_methods" "''.a'' \<noteq> ''__proto__''" "''.a'' \<notin> set (proto_props rs)"
    by (simp_all add: proto_methods_def proto_props_def rs_def)
  have ct: "class_tokens ''.a'' = [''.a'']"
    by code_simp
  have nc: "\<not> includesStr ''.a'' '':''"
    by code_simp
  have keep: "\<not> droppable {''a''} ''.a''"
    by (simp add: droppable_def ct)
  have dr: "droppable {} ''.a''"
    using nc by (simp add: droppable_def ct)
  have d1: "map_of (rule_decls (rs ! 0)) ''x'' \<noteq> None"
    unfolding rs_def by code_simp
  have d2: "map_of (rev (rule_decls (rs ! 1))) ''x'' = Some ''3''"
    unfolding rs_def by code_simp
  have np: "''x'' \<noteq> ''__proto__''" by simp
  have 1: "\<exists>h1 grouped rest ps.
         group_and_filter fresh_host rs (Some {''a''}) = Inr (h1, grouped)
         \<and> ''.a{x:3;y:2;}'' = write_groups grouped @ rest
         \<and> count_list (own_keys grouped) ''.a'' = 1
         \<and> get_own grouped ''.a'' = Some ps
         \<and> get_own ps ''x'' = Some ''3'' \<and> count_list (own_keys ps) ''x'' = 1
         \<and> includesStr (write_props ps) ''x:3;''"
  proof -
    from c1_duplicate_selectors_merged [OF run1 rs occ later own] keep
    obtain h1 grouped rest ps where
      "group_and_filter fresh_host rs (Some {''a''}) = Inr (h1, grouped)"
      "''.a{x:3;y:2;}'' = write_groups grouped @ rest"
      "count_list (own_keys grouped) ''.a'' = 1"
      "get_own grouped ''.a'' = Some ps"
      and v: "\<forall>p v. p \<noteq> ''__proto__'' \<and> map_of (rule_decls (rs ! 0)) p \<noteq> None
                                \<and> map_of (rev (rule_decls (rs ! 1))) p = Some v
                            \<longrightarrow> get_own ps p = Some v \<and> count_list (own_keys ps) p = 1
                               \<and> includesStr (write_props ps) (p @ '':'' @ v @ '';'')"
      by auto
    moreover from v d1 d2 np have "get_own ps ''x'' = Some ''3'' \<and> count_list (own_keys ps) ''x'' = 1
                               \<and> includesStr (write_props ps) (''x'' @ '':'' @ ''3'' @ '';'')"
      by blast
    ultimately show ?thesis by auto
  qed
  have 2: "\<exists>h1 grouped rest.
         group_and_filter fresh_host rs (Some {}) = Inr (h1, grouped)
         \<and> [] = write_groups grouped @ rest
         \<and> count_list (own_keys grouped) ''.a'' = 0"
    using c1_duplicate_selectors_merged [OF run2 rs occ later own] dr by auto
  from run1 keep 1 run2 dr 2 show ?thesis
    unfolding rs css_def by blast
qed

text \<open>
  The claim as stated fails.  With the empty set of used classes, \<^verbatim>\<open>.b{color:red}.b{color:blue}\<close>
  has the selector \<open>.b\<close> in two top-level rules and an output without it.  And
  \<^verbatim>\<open>p{x:y}p{x:z}@media q{p{x:w}}\<close> has \<open>p\<close> in two top-level rules and an output with two
  groups of \<open>p\<close>, one of them in the media block.  The property \<^verbatim>\<open>__proto__\<close> of two rules
  is not written at all.  The selector \<^verbatim>\<open>toString\<close>, and the selector \<open>a\<close> behind
  \<^verbatim>\<open>__proto__{a:q}\<close>, get no group, because they resolve through the prototype.  And next
  to \<^verbatim>\<open>constructor{name:q}\<close> the optimizer throws.
\<close>

theorem c1_one_occurrence_counterexample:
  "rules (parseCSSRules ''.b{color:red}.b{color:blue}'')
     = [\<lparr>selector = ''.b'', declarations = ''color:red''\<rparr>,
        \<lparr>selector = ''.b'', declarations = ''color:blue''\<rparr>]
   \<and> optimizeCSS ''.b{color:red}.b{color:blue}'' (Some {}) = Inr []
   \<and> rules (parseCSSRules ''p{x:y}p{x:z}@media q{p{x:w}}'')
     = [\<lparr>selector = ''p'', declarations = ''x:y''\<rparr>, \<lparr>selector = ''p'', declarations = ''x:z''\<rparr>]
   \<and> optimizeCSS ''p{x:y}p{x:z}@media q{p{x:w}}'' None = Inr ''p{x:z;}@media q{p{x:w;}}''
   \<and> optimizeCSS ''a{__proto__:x}a{__proto__:y}'' None = Inr ''a{}''
   \<and> optimizeCSS ''toString{x:y}toString{x:z}'' None = Inr []
   \<and> optimizeCSS ''__proto__{a:q}a{junk}a{junk}'' None = Inr []
   \<and> optimizeCSS ''a{x:y}a{x:z}constructor{name:q}'' None = Inl TypeError"
  by code_simp


subsection \<open>Selectors that the class filter keeps\<close>

lemma media_block_Inr:
  assumes "media_block usedClasses (h, out) m = Inr (h', out')"
  shows "\<exists>mg. group_and_filter h (rules (parseCSSRules (content m))) usedClasses = Inr (h', mg) \<and>
           out' = (if own_keys mg = [] then out
                   else out @ ''@media '' @ query m @ ''{'' @ write_groups mg @ ''}'')"
  using assms by (auto simp: media_block_def split: sum.splits if_splits)

lemma media_blocks_member:
  assumes "media_blocks usedClasses (h, out) ms = Inr (h', out')" and "m \<in> set ms"
  shows "\<exists>hm hm' mg. group_and_filter hm (rules (parseCSSRules (content m))) usedClasses = Inr (hm', mg)
           \<and> set (polluted hm) \<subseteq> set (polluted h)
                 \<union> set (proto_props (concat (map (\<lambda>m. rules (parseCSSRules (content m))) ms)))
           \<and> (own_keys mg \<noteq> [] \<longrightarrow>
                 includesStr out' (''@media '' @ query m @ ''{'' @ write_groups mg @ ''}''))"
  using assms
proof (induction ms arbitrary: h out)
  case Nil
  then show ?case by simp
next
  case (Cons m' ms)
  from Cons.prems(1) obtain h1 out1 where
    a: "media_block usedClasses (h, out) m' = Inr (h1, out1)"
    and b: "media_blocks usedClasses (h1, out1) ms = Inr (h', out')"
    by (auto split: sum.splits)
  from media_block_Inr [OF a] obtain mg where
    gf: "group_and_filter h (rules (parseCSSRules (content m'))) usedClasses = Inr (h1, mg)"
    and o1: "out1 = (if own_keys mg = [] then out
                   else out @ ''@media '' @ query m' @ ''{'' @ write_groups mg @ ''}'')"
    by blast
  from media_blocks_appends [OF b] obtain suf where suf: "out' = out1 @ suf" by blast
  show ?case
  proof (cases "m = m'")
    case True
    have "own_keys mg \<noteq> [] \<longrightarrow>
            includesStr out' (''@media '' @ query m @ ''{'' @ write_groups mg @ ''}'')"
    proof
      assume "own_keys mg \<noteq> []"
      then have "out' = out @ (''@media '' @ query m @ ''{'' @ write_groups mg @ ''}'') @ suf"
        using o1 suf True by simp
      then show "includesStr out' (''@media '' @ query m @ ''{'' @ write_groups mg @ ''}'')"
        unfolding includesStr_iff by blast
    qed
    with gf True show ?thesis by blast
  next
    case False
    with Cons.prems(2) have "m \<in> set ms" by simp
    from Cons.IH [OF b this] obtain hm hm' mg' where
      1: "group_and_filter hm (rules (parseCSSRules (content m))) usedClasses = Inr (hm', mg')"
      and 2: "set (polluted hm) \<subseteq> set (polluted h1)
                 \<union> set (proto_props (concat (map (\<lambda>m. rules (parseCSSRules (content m))) ms)))"
      and 3: "own_keys mg' \<noteq> [] \<longrightarrow>
                 includesStr out' (''@media '' @ query m @ ''{'' @ write_groups mg' @ ''}'')"
      by blast
    from group_and_filter_Inr [OF gf] obtain g0 where
      "group_rules (h, []) (rules (parseCSSRules (content m'))) = Inr (h1, g0)" by blast
    from group_rules_polluted [OF this] 2
    have "set (polluted hm) \<subseteq> set (polluted h)
                 \<union> set (proto_props (concat (map (\<lambda>m. rules (parseCSSRules (content m))) (m' # ms))))"
      by (auto simp: proto_props_append)
    with 1 3 show ?thesis by blast
  qed
qed


lemma proto_props_member:
  "m \<in> set ms \<Longrightarrow> set (proto_props (f m)) \<subseteq> set (proto_props (concat (map f ms)))"
  by (induction ms) (auto simp: proto_props_append)

lemma proto_props_no_colon:
  assumes "p \<in> set (proto_props rs)"
  shows "CHR '':'' \<notin> set p"
proof -
  from assms obtain r v where "(p, v) \<in> set (rule_decls r)"
    by (auto simp: proto_props_def)
  then obtain d where "parse_decl d = Some (p, v)"
    by (auto simp: rule_decls_def set_map_filter)
  from parse_decl_wf [OF this] show ?thesis by simp
qed

lemma kept_everywhere:
  assumes run: "optimizeCSS_in h css usedClasses = Inr (h', out)"
    and np: "sel \<notin> set (polluted h)" "sel \<notin> set (proto_props (all_rules css))"
            "sel \<notin> set proto_methods" "sel \<noteq> ''__proto__''"
    and keep: "\<forall>used. usedClasses = Some used \<longrightarrow> \<not> droppable used sel"
  shows "(\<forall>r\<in>set (rules (parseCSSRules css)). selector r = sel \<longrightarrow>
            (\<exists>h1 g ps. group_rules (h, []) (rules (parseCSSRules css)) = Inr (h1, g)
               \<and> get_own g sel = Some ps
               \<and> get_own (drop_unused usedClasses g) sel = Some ps
               \<and> includesStr out (sel @ ''{'' @ write_props ps @ ''}'')))
       \<and> (\<forall>m\<in>set (mediaRules (parseCSSRules css)).
            \<forall>r\<in>set (rules (parseCSSRules (content m))). selector r = sel \<longrightarrow>
            (\<exists>hm hm' mg ps. group_rules (hm, []) (rules (parseCSSRules (content m))) = Inr (hm', mg)
               \<and> get_own mg sel = Some ps
               \<and> get_own (drop_unused usedClasses mg) sel = Some ps
               \<and> includesStr out (''@media '' @ query m @ ''{''
                                    @ write_groups (drop_unused usedClasses mg) @ ''}'')
               \<and> includesStr (write_groups (drop_unused usedClasses mg))
                              (sel @ ''{'' @ write_props ps @ ''}'')))"
proof -
  define p where "p = parseCSSRules css"
  from run obtain h1 g' where
    a: "group_and_filter h (rules p) usedClasses = Inr (h1, g')"
    and b: "media_blocks usedClasses (h1, write_groups g') (mediaRules p) = Inr (h', out)"
    by (auto simp: optimizeCSS_in_def Let_def p_def split: sum.splits)
  from group_and_filter_Inr [OF a] obtain g where
    c: "group_rules (h, []) (rules p) = Inr (h1, g)" and d: "g' = drop_unused usedClasses g"
    by blast
  have props: "set (proto_props (all_rules css))
                 = set (proto_props (rules p)) \<union> set (proto_props (media_rules_of css))"
    by (simp add: all_rules_def proto_props_append p_def)
  have top: "\<forall>r\<in>set (rules p). selector r = sel \<longrightarrow>
            (\<exists>h1 g ps. group_rules (h, []) (rules p) = Inr (h1, g)
               \<and> get_own g sel = Some ps
               \<and> get_own (drop_unused usedClasses g) sel = Some ps
               \<and> includesStr out (sel @ ''{'' @ write_props ps @ ''}''))"
  proof (intro ballI impI)
    fix r assume r: "r \<in> set (rules p)" and s: "selector r = sel"
    from group_rules_enters [OF c r] np props s obtain ps where
      ps: "get_own g sel = Some ps" by auto
    from kept_in_output [OF run c [unfolded p_def] ps keep] c ps
    show "\<exists>h1 g ps. group_rules (h, []) (rules p) = Inr (h1, g)
               \<and> get_own g sel = Some ps
               \<and> get_own (drop_unused usedClasses g) sel = Some ps
               \<and> includesStr out (sel @ ''{'' @ write_props ps @ ''}'')"
      by blast
  qed
  have med: "\<forall>m\<in>set (mediaRules p).
            \<forall>r\<in>set (rules (parseCSSRules (content m))). selector r = sel \<longrightarrow>
            (\<exists>hm hm' mg ps. group_rules (hm, []) (rules (parseCSSRules (content m))) = Inr (hm', mg)
               \<and> get_own mg sel = Some ps
               \<and> get_own (drop_unused usedClasses mg) sel = Some ps
               \<and> includesStr out (''@media '' @ query m @ ''{''
                                    @ write_groups (drop_unused usedClasses mg) @ ''}'')
               \<and> includesStr (write_groups (drop_unused usedClasses mg))
                              (sel @ ''{'' @ write_props ps @ ''}''))"
  proof (intro ballI impI)
    fix m r assume m: "m \<in> set (mediaRules p)"
      and r: "r \<in> set (rules (parseCSSRules (content m)))" and s: "selector r = sel"
    from media_blocks_member [OF b m] obtain hm hm' mg' where
      gf: "group_and_filter hm (rules (parseCSSRules (content m))) usedClasses = Inr (hm', mg')"
      and pol: "set (polluted hm) \<subseteq> set (polluted h1)
                 \<union> set (proto_props (concat (map (\<lambda>m. rules (parseCSSRules (content m))) (mediaRules p))))"
      and blk: "own_keys mg' \<noteq> [] \<longrightarrow>
                 includesStr out (''@media '' @ query m @ ''{'' @ write_groups mg' @ ''}'')"
      by blast
    from group_and_filter_Inr [OF gf] obtain mg where
      gr: "group_rules (hm, []) (rules (parseCSSRules (content m))) = Inr (hm', mg)"
      and mg': "mg' = drop_unused usedClasses mg" by blast
    have "sel \<notin> set (polluted h1)"
      using group_rules_polluted [OF c] np props by auto
    with pol np(2) props have 1: "selector r \<notin> set (polluted hm)"
      by (auto simp: media_rules_of_def p_def s)
    have "set (proto_props (rules (parseCSSRules (content m))))
            \<subseteq> set (proto_props (media_rules_of css))"
      unfolding media_rules_of_def p_def [symmetric] using m by (rule proto_props_member)
    with np(2) props have 2: "selector r \<notin> set (proto_props (rules (parseCSSRules (content m))))"
      by (auto simp: s)
    from group_rules_enters [OF gr r 1 2] np(3,4) s obtain ps where
      ps: "get_own mg sel = Some ps" by auto
    have k: "get_own (drop_unused usedClasses mg) sel = Some ps"
      using ps keep by (simp add: get_own_drop_unused split: option.splits)
    then have "own_keys mg' \<noteq> []"
      using get_own_Some_key [of mg' sel ps] mg' by auto
    with blk have "includesStr out (''@media '' @ query m @ ''{''
                                    @ write_groups (drop_unused usedClasses mg) @ ''}'')"
      by (simp add: mg')
    with gr ps k write_groups_includes [OF k]
    show "\<exists>hm hm' mg ps. group_rules (hm, []) (rules (parseCSSRules (content m))) = Inr (hm', mg)
               \<and> get_own mg sel = Some ps
               \<and> get_own (drop_unused usedClasses mg) sel = Some ps
               \<and> includesStr out (''@media '' @ query m @ ''{''
                                    @ write_groups (drop_unused usedClasses mg) @ ''}'')
               \<and> includesStr (write_groups (drop_unused usedClasses mg))
                              (sel @ ''{'' @ write_props ps @ ''}'')"
      by blast
  qed
  from top med show ?thesis by (simp add: p_def)
qed

text \<open>
  Claim C3, as amended.  With the used classes \<open>{a}\<close> the rules \<^verbatim>\<open>.a{color:red}\<close> and
  \<^verbatim>\<open>.b{color:blue}\<close>, in either order, give \<^verbatim>\<open>.a{color:red;}\<close>: the rule of \<open>.a\<close> with its
  declaration and no rule of \<open>.b\<close>.  For the second part, let the optimizer return \<open>out\<close>
  in a page with untouched built-in objects, with or without a set of used classes, and
  let \<open>sel\<close> be a selector in which the class pattern finds no token, that is no member
  of \<^verbatim>\<open>Object.prototype\<close> and that no rule with the selector \<^verbatim>\<open>__proto__\<close> declares as a
  property.  If \<open>sel\<close> is the selector of a top-level rule that the parser delivers, then
  the grouping of the top-level rules has an object of declarations for \<open>sel\<close>, the
  filter leaves it there, and the group is written to \<open>out\<close>.  If \<open>sel\<close> is the selector of
  a rule that the parser delivers for the content of a media block, then the grouping of
  that block has an object of declarations for \<open>sel\<close>, the filter leaves it there, and
  \<open>out\<close> contains the block, written with the groups that the filter left, the group
  of \<open>sel\<close> among them.
\<close>

theorem c3_class_filter:
  assumes run: "optimizeCSS css usedClasses = Inr out"
    and nt: "class_tokens sel = []"
    and np: "sel \<notin> set proto_methods" "sel \<noteq> ''__proto__''"
            "sel \<notin> set (proto_props (all_rules css))"
  shows "optimizeCSS ''.a{color:red}.b{color:blue}'' (Some {''a''}) = Inr ''.a{color:red;}''
       \<and> optimizeCSS ''.b{color:blue}.a{color:red}'' (Some {''a''}) = Inr ''.a{color:red;}''
       \<and> (sel \<in> selector ` set (rules (parseCSSRules css)) \<longrightarrow>
            (\<exists>h1 g ps. group_rules (fresh_host, []) (rules (parseCSSRules css)) = Inr (h1, g)
               \<and> get_own g sel = Some ps
               \<and> get_own (drop_unused usedClasses g) sel = Some ps
               \<and> includesStr out (sel @ ''{'' @ write_props ps @ ''}'')))
       \<and> (\<forall>m\<in>set (mediaRules (parseCSSRules css)).
            sel \<in> selector ` set (rules (parseCSSRules (content m))) \<longrightarrow>
            (\<exists>hm hm' mg ps. group_rules (hm, []) (rules (parseCSSRules (content m))) = Inr (hm', mg)
               \<and> get_own mg sel = Some ps
               \<and> get_own (drop_unused usedClasses mg) sel = Some ps
               \<and> includesStr out (''@media '' @ query m @ ''{''
                                    @ write_groups (drop_unused usedClasses mg) @ ''}'')
               \<and> includesStr (write_groups (drop_unused usedClasses mg))
                              (sel @ ''{'' @ write_props ps @ ''}'')))"
proof -
  have 1: "optimizeCSS ''.a{color:red}.b{color:blue}'' (Some {''a''}) = Inr ''.a{color:red;}''"
    by code_simp
  have 2: "optimizeCSS ''.b{color:blue}.a{color:red}'' (Some {''a''}) = Inr ''.a{color:red;}''"
    by code_simp
  from run obtain h' where run': "optimizeCSS_in fresh_host css usedClasses = Inr (h', out)"
    by (auto simp: optimizeCSS_def split: sum.splits)
  have keep: "\<forall>used. usedClasses = Some used \<longrightarrow> \<not> droppable used sel"
    using nt by (simp add: droppable_def)
  have "sel \<notin> set (polluted fresh_host)" by (simp add: fresh_host_def)
  from kept_everywhere [OF run' this np(3,1,2) keep] 1 2 show ?thesis
    by (simp add: image_iff) blast
qed

text \<open>
  The hypotheses hold for the element selector \<open>p\<close>, at top level and in a media block,
  next to an unused class.
\<close>

theorem c3_class_filter_witness:
  "optimizeCSS ''p{margin:0}.b{color:blue}@media print{p{color:blue}.b{x:y}}'' (Some {''a''})
     = Inr ''p{margin:0;}@media print{p{color:blue;}}''
   \<and> class_tokens ''p'' = []
   \<and> ''p'' \<notin> set proto_methods
   \<and> ''p'' \<notin> set (proto_props (all_rules ''p{margin:0}.b{color:blue}@media print{p{color:blue}.b{x:y}}''))
   \<and> ''p'' \<in> selector ` set (rules (parseCSSRules ''p{margin:0}.b{color:blue}@media print{p{color:blue}.b{x:y}}''))
   \<and> includesStr ''p{margin:0;}@media print{p{color:blue;}}'' ''p{margin:0;}''
   \<and> mediaRules (parseCSSRules ''p{margin:0}.b{color:blue}@media print{p{color:blue}.b{x:y}}'')
        = [\<lparr>query = ''print'', content = ''p{color:blue}.b{x:y}''\<rparr>]
   \<and> ''p'' \<in> selector ` set (rules (parseCSSRules ''p{color:blue}.b{x:y}''))
   \<and> (\<exists>hm hm' mg ps.
         group_rules (hm, []) (rules (parseCSSRules ''p{color:blue}.b{x:y}'')) = Inr (hm', mg)
         \<and> get_own (drop_unused (Some {''a''}) mg) ''p'' = Some ps
         \<and> includesStr ''p{margin:0;}@media print{p{color:blue;}}''
              (''@media print{'' @ write_groups (drop_unused (Some {''a''}) mg) @ ''}'')
         \<and> includesStr (write_groups (drop_unused (Some {''a''}) mg)) (''p{'' @ write_props ps @ ''}''))"
proof -
  define css where "css = ''p{margin:0}.b{color:blue}@media print{p{color:blue}.b{x:y}}''"
  define out where "out = ''p{margin:0;}@media print{p{color:blue;}}''"
  have run: "optimizeCSS css (Some {''a''}) = Inr out"
    unfolding css_def out_def by code_simp
  have nt: "class_tokens ''p'' = []"
    by code_simp
  have np: "''p'' \<notin> set proto_methods" "''p'' \<noteq> ''__proto__''"
    by (simp_all add: proto_methods_def)
  have ar: "all_rules css = [\<lparr>selector = ''p'', declarations = ''margin:0''\<rparr>,
                             \<lparr>selector = ''.b'', declarations = ''color:blue''\<rparr>,
                             \<lparr>selector = ''p'', declarations = ''color:blue''\<rparr>,
                             \<lparr>selector = ''.b'', declarations = ''x:y''\<rparr>]"
    unfolding css_def by code_simp
  have pp: "''p'' \<notin> set (proto_props (all_rules css))"
    unfolding ar by (simp add: proto_props_def)
  have rl: "rules (parseCSSRules css) = [\<lparr>selector = ''p'', declarations = ''margin:0''\<rparr>,
                             \<lparr>selector = ''.b'', declarations = ''color:blue''\<rparr>]"
    unfolding css_def by code_simp
  have ml: "mediaRules (parseCSSRules css) = [\<lparr>query = ''print'', content = ''p{color:blue}.b{x:y}''\<rparr>]"
    unfolding css_def by code_simp
  have rm: "rules (parseCSSRules ''p{color:blue}.b{x:y}'')
              = [\<lparr>selector = ''p'', declarations = ''color:blue''\<rparr>,
                 \<lparr>selector = ''.b'', declarations = ''x:y''\<rparr>]"
    by code_simp
  have gr: "group_rules (fresh_host, []) (rules (parseCSSRules css))
              = Inr (fresh_host, [(''p'', [(''margin'', ''0'')]), (''.b'', [(''color'', ''blue'')])])"
    unfolding rl by code_simp
  have wp: "write_props [(''margin'', ''0'')] = ''margin:0;''"
    by code_simp
  note c = c3_class_filter [OF run nt np pp]
  have mem: "''p'' \<in> selector ` set (rules (parseCSSRules css))"
    by (simp add: rl)
  from c mem obtain h1 g ps where
    "group_rules (fresh_host, []) (rules (parseCSSRules css)) = Inr (h1, g)"
    "get_own g ''p'' = Some ps" "includesStr out (''p'' @ ''{'' @ write_props ps @ ''}'')"
    by blast
  then have top: "includesStr out ''p{margin:0;}''"
    using wp by (auto simp: gr get_own_def)
  from c have med: "\<exists>hm hm' mg ps.
         group_rules (hm, []) (rules (parseCSSRules ''p{color:blue}.b{x:y}'')) = Inr (hm', mg)
         \<and> get_own (drop_unused (Some {''a''}) mg) ''p'' = Some ps
         \<and> includesStr out (''@media print{'' @ write_groups (drop_unused (Some {''a''}) mg) @ ''}'')
         \<and> includesStr (write_groups (drop_unused (Some {''a''}) mg)) (''p{'' @ write_props ps @ ''}'')"
    unfolding ml by (simp add: rm) blast
  have mem2: "''p'' \<in> selector ` set (rules (parseCSSRules ''p{color:blue}.b{x:y}''))"
    by (simp add: rm)
  from run nt np(1) pp mem top ml mem2 med show ?thesis
    unfolding css_def out_def by blast
qed

text \<open>
  The claim as stated fails: a selector without a class token is not always kept.  The
  rule \<^verbatim>\<open>toString{color:red}\<close> is not written, because \<^verbatim>\<open>grouped['toString']\<close> is a member of
  \<^verbatim>\<open>Object.prototype\<close>.  The rule \<^verbatim>\<open>p{color:red}\<close> behind a media block is not written,
  because the parser takes it for a part of the block and delivers no rule for it.  The
  rule \<^verbatim>\<open>p{junk}\<close> behind \<^verbatim>\<open>__proto__{p:x}\<close> is not written, because \<^verbatim>\<open>grouped['p']\<close> is then
  a string of the prototype.  And next to \<^verbatim>\<open>constructor{name:x}\<close> the optimizer throws.
\<close>

theorem c3_class_token_free_dropped_counterexample:
  "rules (parseCSSRules ''toString{color:red}'')
     = [\<lparr>selector = ''toString'', declarations = ''color:red''\<rparr>]
   \<and> class_tokens ''toString'' = []
   \<and> optimizeCSS ''toString{color:red}'' (Some {}) = Inr []
   \<and> optimizeCSS ''@media (max-width:600px){a{x:y}} p{color:red}'' (Some {})
       = Inr ''@media (max-width:600px){a{x:y;}}''
   \<and> optimizeCSS ''__proto__{p:x}p{junk}'' (Some {}) = Inr []
   \<and> optimizeCSS ''p{color:red}constructor{name:x}'' (Some {}) = Inl TypeError"
  by code_simp

text \<open>
  Claim C4, as amended.  The rule \<^verbatim>\<open>.unused:hover{color:red}\<close> is written although no class
  is used.  In general, let the optimizer return \<open>out\<close> in a page with untouched built-in
  objects, with or without a set of used classes, and let \<open>sel\<close> contain a colon.  If
  \<open>sel\<close> is the selector of a top-level rule that the parser delivers, then the grouping
  of the top-level rules has an object of declarations for \<open>sel\<close>, the filter leaves it
  there, and the group is written to \<open>out\<close>.  If \<open>sel\<close> is the selector of a rule that the
  parser delivers for the content of a media block, then the grouping of that block has
  an object of declarations for \<open>sel\<close>, the filter leaves it there, and \<open>out\<close> contains the
  block, written with the groups that the filter left, the group of \<open>sel\<close> among them.
\<close>

theorem c4_pseudo_selector_kept:
  assumes run: "optimizeCSS css usedClasses = Inr out"
    and colon: "includesStr sel '':''"
  shows "optimizeCSS ''.unused:hover{color:red}'' (Some {}) = Inr ''.unused:hover{color:red;}''
       \<and> (sel \<in> selector ` set (rules (parseCSSRules css)) \<longrightarrow>
            (\<exists>h1 g ps. group_rules (fresh_host, []) (rules (parseCSSRules css)) = Inr (h1, g)
               \<and> get_own g sel = Some ps
               \<and> get_own (drop_unused usedClasses g) sel = Some ps
               \<and> includesStr out (sel @ ''{'' @ write_props ps @ ''}'')))
       \<and> (\<forall>m\<in>set (mediaRules (parseCSSRules css)).
            sel \<in> selector ` set (rules (parseCSSRules (content m))) \<longrightarrow>
            (\<exists>hm hm' mg ps. group_rules (hm, []) (rules (parseCSSRules (content m))) = Inr (hm', mg)
               \<and> get_own mg sel = Some ps
               \<and> get_own (drop_unused usedClasses mg) sel = Some ps
               \<and> includesStr out (''@media '' @ query m @ ''{''
                                    @ write_groups (drop_unused usedClasses mg) @ ''}'')
               \<and> includesStr (write_groups (drop_unused usedClasses mg))
                              (sel @ ''{'' @ write_props ps @ ''}'')))"
proof -
  have 1: "optimizeCSS ''.unused:hover{color:red}'' (Some {}) = Inr ''.unused:hover{color:red;}''"
    by code_simp
  from run obtain h' where run': "optimizeCSS_in fresh_host css usedClasses = Inr (h', out)"
    by (auto simp: optimizeCSS_def split: sum.splits)
  have keep: "\<forall>used. usedClasses = Some used \<longrightarrow> \<not> droppable used sel"
    using colon by (simp add: droppable_def)
  have c: "CHR '':'' \<in> set sel"
    using colon by (simp add: includesStr_single)
  have np: "sel \<notin> set (proto_props (all_rules css))" "sel \<notin> set proto_methods"
    "sel \<noteq> ''__proto__''"
    using c proto_props_no_colon [of sel "all_rules css"] by (auto simp: proto_methods_def)
  have "sel \<notin> set (polluted fresh_host)" by (simp add: fresh_host_def)
  from kept_everywhere [OF run' this np keep] 1 show ?thesis
    by (simp add: image_iff) blast
qed

text \<open>
  The hypotheses hold for the selector \<^verbatim>\<open>.u:hover\<close>, at top level and in a media block,
  with no class used.
\<close>

theorem c4_pseudo_selector_kept_witness:
  "optimizeCSS ''.u:hover{color:red}@media print{.u:hover{color:blue}}'' (Some {})
     = Inr ''.u:hover{color:red;}@media print{.u:hover{color:blue;}}''
   \<and> includesStr ''.u:hover'' '':''
   \<and> ''.u:hover'' \<in> selector ` set (rules (parseCSSRules ''.u:hover{color:red}@media print{.u:hover{color:blue}}''))
   \<and> includesStr ''.u:hover{color:red;}@media print{.u:hover{color:blue;}}'' ''.u:hover{color:red;}''
   \<and> mediaRules (parseCSSRules ''.u:hover{color:red}@media print{.u:hover{color:blue}}'')
        = [\<lparr>query = ''print'', content = ''.u:hover{color:blue}''\<rparr>]
   \<and> ''.u:hover'' \<in> selector ` set (rules (parseCSSRules ''.u:hover{color:blue}''))
   \<and> (\<exists>hm hm' mg ps.
         group_rules (hm, []) (rules (parseCSSRules ''.u:hover{color:blue}'')) = Inr (hm', mg)
         \<and> get_own (drop_unused (Some {}) mg) ''.u:hover'' = Some ps
         \<and> includesStr ''.u:hover{color:red;}@media print{.u:hover{color:blue;}}''
              (''@media print{'' @ write_groups (drop_unused (Some {}) mg) @ ''}'')
         \<and> includesStr (write_groups (drop_unused (Some {}) mg)) (''.u:hover{'' @ write_props ps @ ''}''))"
proof -
  define css where "css = ''.u:hover{color:red}@media print{.u:hover{color:blue}}''"
  define out where "out = ''.u:hover{color:red;}@media print{.u:hover{color:blue;}}''"
  have run: "optimizeCSS css (Some {}) = Inr out"
    unfolding css_def out_def by code_simp
  have colon: "includesStr ''.u:hover'' '':''"
    by code_simp
  have rl: "rules (parseCSSRules css) = [\<lparr>selector = ''.u:hover'', declarations = ''color:red''\<rparr>]"
    unfolding css_def by code_simp
  have ml: "mediaRules (parseCSSRules css) = [\<lparr>query = ''print'', content = ''.u:hover{color:blue}''\<rparr>]"
    unfolding css_def by code_simp
  have rm: "rules (parseCSSRules ''.u:hover{color:blue}'')
              = [\<lparr>selector = ''.u:hover'', declarations = ''color:blue''\<rparr>]"
    by code_simp
  have gr: "group_rules (fresh_host, []) (rules (parseCSSRules css))
              = Inr (fresh_host, [(''.u:hover'', [(''color'', ''red'')])])"
    unfolding rl by code_simp
  have wp: "write_props [(''color'', ''red'')] = ''color:red;''"
    by code_simp
  note c = c4_pseudo_selector_kept [OF run colon]
  have mem: "''.u:hover'' \<in> selector ` set (rules (parseCSSRules css))"
    by (simp add: rl)
  from c mem obtain h1 g ps where
    "group_rules (fresh_host, []) (rules (parseCSSRules css)) = Inr (h1, g)"
    "get_own g ''.u:hover'' = Some ps" "includesStr out (''.u:hover'' @ ''{'' @ write_props ps @ ''}'')"
    by blast
  then have top: "includesStr out ''.u:hover{color:red;}''"
    using wp by (auto simp: gr get_own_def)
  from c have med: "\<exists>hm hm' mg ps.
         group_rules (hm, []) (rules (parseCSSRules ''.u:hover{color:blue}'')) = Inr (hm', mg)
         \<and> get_own (drop_unused (Some {}) mg) ''.u:hover'' = Some ps
         \<and> includesStr out (''@media print{'' @ write_groups (drop_unused (Some {}) mg) @ ''}'')
         \<and> includesStr (write_groups (drop_unused (Some {}) mg)) (''.u:hover{'' @ write_props ps @ ''}'')"
    unfolding ml by (simp add: rm) blast
  have mem2: "''.u:hover'' \<in> selector ` set (rules (parseCSSRules ''.u:hover{color:blue}''))"
    by (simp add: rm)
  from run colon mem top ml mem2 med show ?thesis
    unfolding css_def out_def by blast
qed

text \<open>
  The claim as stated fails: a selector with a colon is not always in the output.  The
  rule \<^verbatim>\<open>a:hover{color:red}\<close> behind a media block is not written, with or without a set
  of used classes, because the parser takes it for a part of the block and delivers no
  rule for it.  And next to \<^verbatim>\<open>constructor{name:x}\<close> the optimizer throws.
\<close>

theorem c4_pseudo_selector_lost_counterexample:
  "rules (parseCSSRules ''@media (max-width:600px){a{x:y}} a:hover{color:red}'') = []
   \<and> optimizeCSS ''@media (max-width:600px){a{x:y}} a:hover{color:red}'' (Some {})
       = Inr ''@media (max-width:600px){a{x:y;}}''
   \<and> optimizeCSS ''@media (max-width:600px){a{x:y}} a:hover{color:red}'' None
       = Inr ''@media (max-width:600px){a{x:y;}}''
   \<and> optimizeCSS ''a:hover{color:red}constructor{name:x}'' (Some {}) = Inl TypeError"
  by code_simp


section \<open>A second pass of the optimizer\<close>

subsection \<open>The grouping keeps its entries well formed\<close>

lemma wf_decls_put:
  "wf_decls ps \<Longrightarrow> wf_token p \<Longrightarrow> wf_token v \<Longrightarrow> wf_decls (put ps p v)"
  using set_put_subset [of ps p v] by (auto simp: wf_decls_def)

lemma fst_set_put: "fst ` set (put ps p v) = insert p (fst ` set ps)"
proof -
  have "set (map fst (put ps p v)) = insert p (set (map fst ps))"
    by (auto simp: keys_put has_own_def)
  then show ?thesis by simp
qed

lemma wf_props_merge:
  "wf_props ps \<Longrightarrow> wf_decls ds \<Longrightarrow> wf_props (merge_props ps ds)"
proof (induction ds arbitrary: ps)
  case Nil
  then show ?case by simp
next
  case (Cons d ds)
  obtain p v where d: "d = (p, v)" by (cases d)
  from Cons.prems(2) d have t: "wf_token p" "wf_token v" and ds: "wf_decls ds"
    by (auto simp: wf_decls_def)
  show ?case
  proof (cases "p = ''__proto__''")
    case True
    with Cons.IH [OF Cons.prems(1) ds] d show ?thesis by simp
  next
    case False
    have "wf_props (put ps p v)"
      using Cons.prems(1) t False
      by (auto simp: wf_props_def distinct_put wf_decls_put fst_set_put)
    from Cons.IH [OF this ds] d False show ?thesis by simp
  qed
qed

lemma group_rule_wf:
  assumes "group_rule (h, g) r = Inr (h', g')" and "wf_groups g" and "wf_rule r"
  shows "wf_groups g'"
proof -
  note ds = rule_decls_wf [OF assms(3)]
  from group_rule_cases [OF assms(1)] consider
    ps where "get_own g (selector r) = Some ps" "g' = put g (selector r) (merge_props ps (rule_decls r))"
    | "resolve h g (selector r) = Undefined" "g' = g @ [(selector r, merge_props [] (rule_decls r))]"
    | "g' = g" by blast
  then show ?thesis
  proof cases
    case 1
    from 1(1) have mem: "(selector r, ps) \<in> set g"
      by (simp add: get_own_def map_of_SomeD)
    with assms(2) have "wf_props ps" by (force simp: wf_groups_def)
    then have w: "wf_props (merge_props ps (rule_decls r))"
      using ds by (rule wf_props_merge)
    have "\<forall>e \<in> set g'. wf_selector (fst e) \<and> fst e \<noteq> ''__proto__'' \<and> fst e \<notin> set proto_methods
                      \<and> wf_props (snd e)"
    proof
      fix e assume "e \<in> set g'"
      then have "e = (selector r, merge_props ps (rule_decls r)) \<or> e \<in> set g"
        using set_put_subset [of g "selector r" "merge_props ps (rule_decls r)"] 1(2) by auto
      then show "wf_selector (fst e) \<and> fst e \<noteq> ''__proto__'' \<and> fst e \<notin> set proto_methods
                      \<and> wf_props (snd e)"
        using w mem assms(2) by (force simp: wf_groups_def)
    qed
    then show ?thesis
      using assms(2) by (simp add: wf_groups_def 1(2) distinct_put)
  next
    case 2
    have w: "wf_props (merge_props [] (rule_decls r))"
      using ds by (intro wf_props_merge) (simp_all add: wf_props_def wf_decls_def)
    from 2(1) have "\<not> has_own g (selector r)" "selector r \<noteq> ''__proto__''"
      "selector r \<notin> set proto_methods"
      by (auto simp: resolve_def split: if_splits)
    then show ?thesis
      using assms(2,3) w by (auto simp: wf_groups_def 2(2) has_own_def wf_rule_def)
  next
    case 3
    then show ?thesis using assms(2) by simp
  qed
qed

lemma group_rules_wf:
  assumes "group_rules (h, g) rs = Inr (h', g')" and "wf_groups g" and "\<forall>r\<in>set rs. wf_rule r"
  shows "wf_groups g'"
  using assms
proof (induction rs arbitrary: h g)
  case Nil
  then show ?case by simp
next
  case (Cons r rs)
  from Cons.prems(1) obtain h1 g1 where
    a: "group_rule (h, g) r = Inr (h1, g1)" and b: "group_rules (h1, g1) rs = Inr (h', g')"
    by (auto split: sum.splits)
  from group_rule_wf [OF a Cons.prems(2)] Cons.prems(3) have "wf_groups g1" by simp
  from Cons.IH [OF b this] Cons.prems(3) show ?case by simp
qed

lemma wf_groups_filter: "wf_groups g \<Longrightarrow> wf_groups (filter P g)"
  by (auto simp: wf_groups_def distinct_map_filter)

lemma wf_groups_drop_unused: "wf_groups g \<Longrightarrow> wf_groups (drop_unused usedClasses g)"
  by (cases usedClasses) (simp_all add: drop_unused_filter wf_groups_filter, simp add: drop_unused_def)

subsection \<open>Objects in the order of their keys\<close>

lemma ordered_map:
  "ordered obj = map (\<lambda>k. (k, the (get_own obj k))) (own_keys obj)"
proof -
  have "\<And>ks. set ks \<subseteq> set (own_keys obj) \<Longrightarrow>
          List.map_filter (\<lambda>k. map_option (Pair k) (get_own obj k)) ks
            = map (\<lambda>k. (k, the (get_own obj k))) ks"
  proof -
    fix ks show "set ks \<subseteq> set (own_keys obj) \<Longrightarrow>
          List.map_filter (\<lambda>k. map_option (Pair k) (get_own obj k)) ks
            = map (\<lambda>k. (k, the (get_own obj k))) ks"
    proof (induction ks)
      case Nil
      then show ?case by (simp add: List.map_filter_simps)
    next
      case (Cons k ks)
      then obtain v where "get_own obj k = Some v" using own_key_get [of k obj] by auto
      with Cons show ?case by (simp add: List.map_filter_simps)
    qed
  qed
  then show ?thesis by (simp add: ordered_def)
qed

lemma keys_ordered: "map fst (ordered obj) = own_keys obj"
  by (simp add: ordered_map comp_def)

lemma own_keys_split:
  "own_keys obj = sort_key int_of_string (filter is_array_index (map fst obj))
                  @ filter (\<lambda>k. \<not> is_array_index k) (map fst obj)"
  by (simp add: own_keys_def)

lemma own_keys_idem:
  assumes "map fst obj' = own_keys obj"
  shows "own_keys obj' = own_keys obj"
proof -
  define A where "A = sort_key int_of_string (filter is_array_index (map fst obj))"
  define B where "B = filter (\<lambda>k. \<not> is_array_index k) (map fst obj)"
  have k: "map fst obj' = A @ B" using assms by (simp add: own_keys_def A_def B_def)
  have a: "\<forall>x\<in>set A. is_array_index x" by (auto simp: A_def)
  have b: "\<forall>x\<in>set B. \<not> is_array_index x" by (auto simp: B_def)
  have fa: "filter is_array_index (A @ B) = A"
    using a b by (simp add: filter_empty_conv filter_id_conv)
  have fb: "filter (\<lambda>k. \<not> is_array_index k) (A @ B) = B"
    using a b by (simp add: filter_empty_conv filter_id_conv)
  have "sorted (map int_of_string A)" by (simp add: A_def)
  then have sa: "sort_key int_of_string A = A" by (rule sort_key_id_if_sorted)
  have "own_keys obj' = sort_key int_of_string (filter is_array_index (A @ B))
                       @ filter (\<lambda>k. \<not> is_array_index k) (A @ B)"
    unfolding own_keys_def k ..
  also have "\<dots> = A @ B" by (simp only: fa fb sa)
  also have "\<dots> = own_keys obj" by (simp add: own_keys_def A_def B_def)
  finally show ?thesis .
qed

lemma own_keys_ordered: "own_keys (ordered obj) = own_keys obj"
  by (rule own_keys_idem) (rule keys_ordered)

lemma get_own_map_keys:
  "k \<in> set ks \<Longrightarrow> get_own (map (\<lambda>k. (k, f k)) ks) k = Some (f k)"
  by (induction ks) (auto simp: get_own_def)

lemma get_own_ordered: "get_own (ordered obj) k = get_own obj k"
proof (cases "k \<in> set (own_keys obj)")
  case True
  then obtain v where v: "get_own obj k = Some v" using own_key_get by blast
  from get_own_map_keys [OF True, of "\<lambda>k. the (get_own obj k)"]
  show ?thesis using v by (simp add: ordered_map)
next
  case False
  then have "get_own obj k = None"
    using get_own_Some_key [of obj k] by (cases "get_own obj k") auto
  moreover have "k \<notin> fst ` set (ordered obj)"
    using False keys_ordered [of obj] by (metis set_map)
  then have "get_own (ordered obj) k = None"
    by (simp add: get_own_def map_of_eq_None_iff)
  ultimately show ?thesis by simp
qed

lemma ordered_ordered: "ordered (ordered obj) = ordered obj"
  by (simp add: ordered_map [of "ordered obj"] own_keys_ordered get_own_ordered)
     (simp add: ordered_map)

lemma write_props_ordered:
  "write_props ps = concat (map (\<lambda>(p, v). p @ '':'' @ v @ '';'') (ordered ps))"
proof -
  have "\<And>p. p \<in> set (own_keys ps) \<Longrightarrow>
          (case get_own ps p of None \<Rightarrow> [] | Some val \<Rightarrow> val) = the (get_own ps p)"
    using own_key_get [of _ ps] by force
  then show ?thesis
    by (simp add: write_props_def ordered_map comp_def cong: map_cong)
qed

lemma write_groups_ordered:
  "write_groups g = concat (map (\<lambda>(k, ps). k @ ''{'' @ write_props ps @ ''}'') (ordered g))"
proof -
  have "\<And>k. k \<in> set (own_keys g) \<Longrightarrow>
          (case get_own g k of None \<Rightarrow> [] | Some ps \<Rightarrow> write_props ps) = write_props (the (get_own g k))"
    using own_key_get [of _ g] by force
  then show ?thesis
    by (simp add: write_groups_def ordered_map comp_def cong: map_cong)
qed

lemma set_ordered: "distinct (map fst obj) \<Longrightarrow> set (ordered obj) = set obj"
proof -
  assume d: "distinct (map fst obj)"
  have "\<And>k v. ((k, v) \<in> set (ordered obj)) = ((k, v) \<in> set obj)"
  proof -
    fix k v
    have "((k, v) \<in> set (ordered obj)) = (k \<in> set (own_keys obj) \<and> v = the (get_own obj k))"
      by (auto simp: ordered_map)
    also have "\<dots> = (get_own obj k = Some v)"
      using own_key_get [of k obj] get_own_Some_key [of obj k v] by auto
    also have "\<dots> = ((k, v) \<in> set obj)"
      using d by (simp add: get_own_def)
    finally show "((k, v) \<in> set (ordered obj)) = ((k, v) \<in> set obj)" .
  qed
  then show ?thesis by auto
qed

subsection \<open>Reading back what was written\<close>

lemma split_decls:
  assumes "wf_decls ds"
  shows "split_char CHR '';'' (concat (map (\<lambda>(p, v). p @ CHR '':'' # v @ '';'') ds))
           = map (\<lambda>(p, v). p @ CHR '':'' # v) ds @ [[]]"
  using assms
proof (induction ds)
  case Nil
  then show ?case by simp
next
  case (Cons d ds)
  obtain p v where d: "d = (p, v)" by (cases d)
  from Cons.prems d have n: "CHR '';'' \<notin> set (p @ CHR '':'' # v)" and ds: "wf_decls ds"
    by (auto simp: wf_decls_def wf_token_def)
  have "split_char CHR '';'' ((p @ CHR '':'' # v) @ CHR '';'' # concat (map (\<lambda>(p, v). p @ CHR '':'' # v @ '';'') ds))
          = (p @ CHR '':'' # v) # split_char CHR '';'' (concat (map (\<lambda>(p, v). p @ CHR '':'' # v @ '';'') ds))"
    using n by (rule split_char_append)
  then show ?case using Cons.IH [OF ds] d by simp
qed

lemma parse_decl_written:
  assumes "wf_token p" "wf_token v"
  shows "parse_decl (p @ CHR '':'' # v) = Some (p, v)"
proof -
  have "split_char CHR '':'' (p @ CHR '':'' # v) = p # split_char CHR '':'' v"
    using assms(1) by (intro split_char_append) (simp add: wf_token_def)
  also have "\<dots> = [p, v]"
    using assms(2) by (simp add: split_char_none wf_token_def)
  finally show ?thesis
    using assms by (simp add: parse_decl_def wf_token_def)
qed

lemma parse_decl_empty: "parse_decl [] = None"
  by (simp add: parse_decl_def)

lemma map_filter_written:
  "wf_decls ds \<Longrightarrow> List.map_filter parse_decl (map (\<lambda>(p, v). p @ CHR '':'' # v) ds) = ds"
proof (induction ds)
  case Nil
  then show ?case by (simp add: List.map_filter_simps)
next
  case (Cons d ds)
  obtain p v where d: "d = (p, v)" by (cases d)
  from Cons.prems d have "wf_token p" "wf_token v" "wf_decls ds"
    by (auto simp: wf_decls_def)
  then show ?case
    using Cons.IH d by (simp add: List.map_filter_simps parse_decl_written)
qed

lemma map_filter_append:
  "List.map_filter f (xs @ ys) = List.map_filter f xs @ List.map_filter f ys"
  by (simp add: List.map_filter_def)

lemma rule_decls_written:
  assumes "wf_decls ds"
  shows "rule_decls \<lparr>selector = k, declarations = concat (map (\<lambda>(p, v). p @ CHR '':'' # v @ '';'') ds)\<rparr> = ds"
  by (simp add: rule_decls_def split_decls [OF assms] map_filter_append map_filter_written [OF assms]
        List.map_filter_simps parse_decl_empty)

lemma wf_decls_ordered: "wf_props ps \<Longrightarrow> wf_decls (ordered ps)"
  by (simp add: wf_props_def wf_decls_def set_ordered)

lemma rule_decls_write_props:
  assumes "wf_props ps"
  shows "rule_decls \<lparr>selector = k, declarations = write_props ps\<rparr> = ordered ps"
  using rule_decls_written [OF wf_decls_ordered [OF assms], of k]
  by (simp add: write_props_ordered)

lemma merge_props_fresh:
  assumes "distinct (map fst (acc @ ds))" and "''__proto__'' \<notin> fst ` set ds"
  shows "merge_props acc ds = acc @ ds"
  using assms
proof (induction ds arbitrary: acc)
  case Nil
  then show ?case by simp
next
  case (Cons d ds)
  obtain p v where d: "d = (p, v)" by (cases d)
  from Cons.prems d have np: "p \<noteq> ''__proto__''" and nh: "\<not> has_own acc p"
    by (auto simp: has_own_def)
  have "distinct (map fst ((acc @ [(p, v)]) @ ds))" using Cons.prems(1) d by simp
  moreover have "''__proto__'' \<notin> fst ` set ds" using Cons.prems(2) by simp
  ultimately have "merge_props (acc @ [(p, v)]) ds = (acc @ [(p, v)]) @ ds"
    by (rule Cons.IH)
  then show ?case using d np nh by (simp add: put_new)
qed

lemma merge_props_ordered:
  assumes "wf_props ps"
  shows "merge_props [] (ordered ps) = ordered ps"
proof -
  have "distinct (map fst (ordered ps))"
    using assms by (simp add: keys_ordered distinct_own_keys wf_props_def)
  moreover have "''__proto__'' \<notin> fst ` set (ordered ps)"
    using assms by (simp add: set_ordered wf_props_def)
  ultimately show ?thesis using merge_props_fresh [of "[]" "ordered ps"] by simp
qed

lemma written_ends:
  assumes "ds \<noteq> []"
  shows "\<exists>pre. concat (map (\<lambda>(p, v). p @ CHR '':'' # v @ '';'') ds) = pre @ '';''"
proof -
  from assms obtain ds' d where "ds = ds' @ [d]" by (cases ds rule: rev_cases) auto
  moreover obtain q u where "d = (q, u)" by (cases d)
  ultimately have "concat (map (\<lambda>(p, v). p @ CHR '':'' # v @ '';'') ds)
        = (concat (map (\<lambda>(p, v). p @ CHR '':'' # v @ '';'') ds') @ q @ CHR '':'' # u) @ '';''"
    by simp
  then show ?thesis by blast
qed

text \<open>The written body of a group: not empty, trimmed, without a closing brace.\<close>

lemma body_written:
  assumes "wf_props ps" and "ps \<noteq> []"
  shows "write_props ps \<noteq> [] \<and> trim (write_props ps) = write_props ps
       \<and> CHR ''}'' \<notin> set (write_props ps)"
proof -
  have ne: "ordered ps \<noteq> []"
    using assms set_ordered [of ps] by (auto simp: wf_props_def)
  then obtain p v ds where o: "ordered ps = (p, v) # ds" by (cases "ordered ps") auto
  have w: "wf_decls (ordered ps)" by (rule wf_decls_ordered [OF assms(1)])
  then have p: "wf_token p" by (auto simp: o wf_decls_def)
  define body where "body = write_props ps"
  have b: "body = p @ CHR '':'' # v @ '';'' @ concat (map (\<lambda>(p, v). p @ CHR '':'' # v @ '';'') ds)"
    by (simp add: body_def write_props_ordered o)
  from p have "p \<noteq> []" "\<not> is_space (hd p)"
    using trimmed_ends [of p] by (auto simp: wf_token_def)
  then have hd: "body \<noteq> []" "\<not> is_space (hd body)" by (simp_all add: b)
  have "\<exists>pre. body = pre @ '';''"
    using written_ends [OF ne] by (simp add: body_def write_props_ordered)
  then have "last body = CHR '';''" by auto
  then have "\<not> is_space (last body)" by (simp add: is_space_def)
  with hd have t: "trim body = body" by (intro trim_id)
  have "CHR ''}'' \<notin> set body"
    using w unfolding body_def write_props_ordered
    by (auto simp: wf_decls_def wf_token_def)
  with hd(1) t show ?thesis by (simp add: body_def)
qed

lemma ruleRegex_scan:
  assumes "\<forall>e\<in>set gs. fst e \<noteq> [] \<and> CHR ''{'' \<notin> set (fst e) \<and> snd e \<noteq> [] \<and> CHR ''}'' \<notin> set (snd e)"
  shows "map (\<lambda>(pre, c). (cap c 1, cap c 2))
           (fst (rx_scan ruleRegex (concat (map (\<lambda>(a, b). a @ CHR ''{'' # b @ ''}'') gs)))) = gs"
  using assms
proof (induction gs)
  case Nil
  have "rx_search ruleRegex [] = None" by (simp add: ruleRegex_def)
  then show ?case by (simp add: rx_scan_None)
next
  case (Cons e gs)
  obtain a b where e: "e = (a, b)" by (cases e)
  define rest where "rest = concat (map (\<lambda>(a, b). a @ CHR ''{'' # b @ ''}'') gs)"
  define s where "s = a @ CHR ''{'' # b @ CHR ''}'' # rest"
  from Cons.prems e have ab: "a \<noteq> []" "CHR ''{'' \<notin> set a" "b \<noteq> []" "CHR ''}'' \<notin> set b"
    by auto
  from ruleRegex_run [OF ab, of rest] obtain c where
    run: "rx_run ruleRegex s [] = Some (c, rest)" and c: "cap c 1 = a" "cap c 2 = b"
    unfolding s_def by blast
  have hit: "rx_search ruleRegex s = Some ([], c, rest)"
    using run by (rule rx_search_hit)
  have len: "length rest < length s" by (simp add: s_def)
  have "rx_scan ruleRegex s = (([], c) # fst (rx_scan ruleRegex rest), snd (rx_scan ruleRegex rest))"
    using hit len by (subst rx_scan.simps) (simp split: prod.splits)
  moreover have "map (\<lambda>(pre, c). (cap c 1, cap c 2)) (fst (rx_scan ruleRegex rest)) = gs"
    unfolding rest_def using Cons.IH Cons.prems by simp
  moreover have "concat (map (\<lambda>(a, b). a @ CHR ''{'' # b @ ''}'') (e # gs)) = s"
    by (simp add: s_def rest_def e)
  ultimately show ?case using c by (simp add: e)
qed

lemma write_groups_form:
  "write_groups g = concat (map (\<lambda>(a, b). a @ CHR ''{'' # b @ ''}'')
                            (map (\<lambda>(k, ps). (k, write_props ps)) (ordered g)))"
  by (simp add: write_groups_ordered comp_def split_def)

lemma rules_written:
  assumes wf: "wf_groups g" and ne: "\<forall>e\<in>set g. snd e \<noteq> []"
  shows "concat (map (\<lambda>(pre, c). rule_of_match c) (fst (rx_scan ruleRegex (write_groups g))))
           = map (\<lambda>(k, ps). \<lparr>selector = k, declarations = write_props ps\<rparr>) (ordered g)"
proof -
  define out where "out = write_groups g"
  define gs where "gs = map (\<lambda>(k, ps). (k, write_props ps)) (ordered g)"
  have d: "distinct (map fst g)" using wf by (simp add: wf_groups_def)
  have so: "set (ordered g) = set g" using d by (rule set_ordered)
  have each: "\<forall>e\<in>set (ordered g). wf_selector (fst e) \<and> wf_props (snd e) \<and> snd e \<noteq> []"
    using wf ne so by (auto simp: wf_groups_def)
  have gsok: "\<forall>e\<in>set gs. fst e \<noteq> [] \<and> CHR ''{'' \<notin> set (fst e) \<and> snd e \<noteq> [] \<and> CHR ''}'' \<notin> set (snd e)"
    using each body_written by (force simp: gs_def wf_selector_def)
  have caps: "map (\<lambda>(pre, c). (cap c 1, cap c 2)) (fst (rx_scan ruleRegex out)) = gs"
    using ruleRegex_scan [OF gsok] by (simp add: out_def write_groups_form gs_def)
  have "concat (map (\<lambda>(pre, c). rule_of_match c) (fst (rx_scan ruleRegex out)))
        = concat (map (\<lambda>(a, b). rule_of_match [(1, a), (2, b)])
                   (map (\<lambda>(pre, c). (cap c 1, cap c 2)) (fst (rx_scan ruleRegex out))))"
    by (simp add: comp_def split_def rule_of_match_def cap_def)
  also have "\<dots> = concat (map (\<lambda>(a, b). rule_of_match [(1, a), (2, b)]) gs)"
    by (simp only: caps)
  also have "\<dots> = map (\<lambda>(k, ps). \<lparr>selector = k, declarations = write_props ps\<rparr>) (ordered g)"
  proof -
    have "\<And>e. e \<in> set (ordered g) \<Longrightarrow>
            rule_of_match [(1, fst e), (2, write_props (snd e))]
              = [\<lparr>selector = fst e, declarations = write_props (snd e)\<rparr>]"
    proof -
      fix e assume "e \<in> set (ordered g)"
      with each have "wf_selector (fst e)" "wf_props (snd e)" "snd e \<noteq> []" by auto
      with body_written [of "snd e"] show
        "rule_of_match [(1, fst e), (2, write_props (snd e))]
              = [\<lparr>selector = fst e, declarations = write_props (snd e)\<rparr>]"
        by (simp add: rule_of_match_def cap_def wf_selector_def)
    qed
    then have "map (\<lambda>(a, b). rule_of_match [(1, a), (2, b)]) gs
                 = map (\<lambda>e. [\<lparr>selector = fst e, declarations = write_props (snd e)\<rparr>]) (ordered g)"
      by (simp add: gs_def comp_def split_def cong: map_cong)
    then show ?thesis by (simp add: comp_def split_def concat_map_singleton)
  qed
  finally show ?thesis by (simp add: out_def)
qed

lemma parse_written:
  assumes wf: "wf_groups g" and ne: "\<forall>e\<in>set g. snd e \<noteq> []"
    and nc: "\<not> includesStr (write_groups g) ''/*''"
    and nm: "\<not> includesStr (write_groups g) ''@media''"
  shows "parseCSSRules (write_groups g) =
           \<lparr>rules = map (\<lambda>(k, ps). \<lparr>selector = k, declarations = write_props ps\<rparr>) (ordered g),
            mediaRules = []\<rparr>"
proof -
  have t1: "remove_all commentRegex (write_groups g) = write_groups g"
    using nc by (rule remove_comments_id)
  have t2: "rx_scan mediaRegex (write_groups g) = ([], write_groups g)"
    using nm by (rule no_media)
  then have t3: "remove_all mediaRegex (write_groups g) = write_groups g"
    by (simp add: remove_all_def)
  show ?thesis
    unfolding parseCSSRules_def Let_def t1 t3 t2 rules_written [OF wf ne] by simp
qed

lemma group_written:
  assumes "polluted h = []" and "distinct (map fst acc @ map fst xs)"
    and "\<forall>e\<in>set xs. fst e \<noteq> ''__proto__'' \<and> fst e \<notin> set proto_methods \<and> wf_props (snd e)"
  shows "group_rules (h, acc) (map (\<lambda>(k, ps). \<lparr>selector = k, declarations = write_props ps\<rparr>) xs)
           = Inr (h, acc @ map (\<lambda>(k, ps). (k, ordered ps)) xs)"
  using assms(2,3)
proof (induction xs arbitrary: acc)
  case Nil
  then show ?case by simp
next
  case (Cons e xs)
  obtain k ps where e: "e = (k, ps)" by (cases e)
  define r where "r = \<lparr>selector = k, declarations = write_props ps\<rparr>"
  from Cons.prems e have k: "\<not> has_own acc k" "k \<noteq> ''__proto__''" "k \<notin> set proto_methods"
    and ps: "wf_props ps"
    by (auto simp: has_own_def)
  have "resolve h acc (selector r) = Undefined"
    using k assms(1) by (simp add: resolve_def r_def)
  moreover have "''return'' \<notin> set (polluted h)"
    using assms(1) by simp
  ultimately have
    "group_rule (h, acc) r = Inr (h, acc @ [(k, merge_props [] (rule_decls r))])"
    using group_rule_new [of h acc r] by (simp add: r_def)
  moreover have "rule_decls r = ordered ps"
    unfolding r_def by (rule rule_decls_write_props [OF ps])
  ultimately have step: "group_rule (h, acc) r = Inr (h, acc @ [(k, ordered ps)])"
    by (simp add: merge_props_ordered [OF ps])
  have "distinct (map fst (acc @ [(k, ordered ps)]) @ map fst xs)"
    using Cons.prems(1) e by auto
  moreover have "\<forall>e\<in>set xs. fst e \<noteq> ''__proto__'' \<and> fst e \<notin> set proto_methods \<and> wf_props (snd e)"
    using Cons.prems(2) by simp
  ultimately have "group_rules (h, acc @ [(k, ordered ps)])
                     (map (\<lambda>(k, ps). \<lparr>selector = k, declarations = write_props ps\<rparr>) xs)
           = Inr (h, (acc @ [(k, ordered ps)]) @ map (\<lambda>(k, ps). (k, ordered ps)) xs)"
    by (rule Cons.IH)
  then show ?case using step by (simp add: e r_def)
qed

subsection \<open>The written groups\<close>

lemma write_props_Nil: "write_props [] = []"
  by (simp add: write_props_def own_keys_def)

lemma no_empty_group:
  assumes "distinct (map fst g)" and "\<not> includesStr (write_groups g) ''{}''"
  shows "\<forall>e\<in>set g. snd e \<noteq> []"
proof
  fix e assume e: "e \<in> set g"
  show "snd e \<noteq> []"
  proof
    assume "snd e = []"
    with e have "(fst e, []) \<in> set g" by (metis prod.collapse)
    then have "get_own g (fst e) = Some []"
      using assms(1) by (simp add: get_own_def)
    from write_groups_includes [OF this] obtain a c where
      "write_groups g = a @ (fst e @ ''{'' @ write_props [] @ ''}'') @ c"
      unfolding includesStr_iff by blast
    then have "write_groups g = (a @ fst e) @ ''{}'' @ c"
      by (simp add: write_props_Nil)
    then have "includesStr (write_groups g) ''{}''"
      unfolding includesStr_iff by blast
    with assms(2) show False by simp
  qed
qed

lemma write_groups_rebuilt:
  "write_groups (map (\<lambda>(k, ps). (k, ordered ps)) (ordered g)) = write_groups g"
proof -
  define g2 where "g2 = map (\<lambda>(k, ps). (k, ordered ps)) (ordered g)"
  have g2: "g2 = map (\<lambda>k. (k, ordered (the (get_own g k)))) (own_keys g)"
    by (simp add: g2_def ordered_map comp_def)
  have k2: "own_keys g2 = own_keys g"
    by (rule own_keys_idem) (simp add: g2 comp_def)
  have "\<And>k. k \<in> set (own_keys g) \<Longrightarrow>
          (case get_own g2 k of None \<Rightarrow> [] | Some ps \<Rightarrow> write_props ps)
            = (case get_own g k of None \<Rightarrow> [] | Some ps \<Rightarrow> write_props ps)"
  proof -
    fix k assume k: "k \<in> set (own_keys g)"
    then obtain ps where ps: "get_own g k = Some ps" using own_key_get by blast
    have "get_own g2 k = Some (ordered ps)"
      using get_own_map_keys [OF k, of "\<lambda>k. ordered (the (get_own g k))"] ps by (simp add: g2)
    moreover have "write_props (ordered ps) = write_props ps"
      by (simp add: write_props_ordered [of "ordered ps"] ordered_ordered)
         (simp add: write_props_ordered)
    ultimately show "(case get_own g2 k of None \<Rightarrow> [] | Some ps \<Rightarrow> write_props ps)
            = (case get_own g k of None \<Rightarrow> [] | Some ps \<Rightarrow> write_props ps)"
      using ps by simp
  qed
  then have "write_groups g2 = write_groups g"
    by (simp add: write_groups_def k2 cong: map_cong)
  then show ?thesis by (simp add: g2_def)
qed

lemma write_groups_last:
  assumes "own_keys g \<noteq> []"
  shows "write_groups g \<noteq> [] \<and> last (write_groups g) = CHR ''}''"
proof -
  from assms obtain ks k where "own_keys g = ks @ [k]" by (cases "own_keys g" rule: rev_cases) auto
  then obtain u where "write_groups g = u @ ''}''"
    by (simp add: write_groups_def)
  then show ?thesis by simp
qed

lemma write_groups_empty: "own_keys g = [] \<Longrightarrow> write_groups g = []"
  by (simp add: write_groups_def)

lemma includesStr_sub: "includesStr s t \<Longrightarrow> includesStr (a @ s @ b) t"
proof -
  assume "includesStr s t"
  then obtain u v where "s = u @ t @ v" unfolding includesStr_iff by blast
  then have "a @ s @ b = (a @ u) @ t @ (v @ b)" by simp
  then show ?thesis unfolding includesStr_iff by blast
qed

lemma media_text_part:
  assumes "b \<in> set bs"
  shows "\<exists>u v. concat (map (\<lambda>(q, w). media_text q w) bs) = u @ snd b @ v"
proof -
  from assms obtain xs ys where "bs = xs @ b # ys" by (meson split_list)
  moreover obtain q w where "b = (q, w)" by (cases b)
  ultimately have "concat (map (\<lambda>(q, w). media_text q w) bs)
      = (concat (map (\<lambda>(q, w). media_text q w) xs) @ ''@media '' @ q @ ''{'') @ snd b
          @ (''}'' @ concat (map (\<lambda>(q, w). media_text q w) ys))"
    by (simp add: media_text_def)
  then show ?thesis by blast
qed

subsection \<open>The host of a run that leaves the built-in objects untouched\<close>

lemma group_rule_host:
  assumes "group_rule (h, g) r = Inr (h', g')"
  shows "set (polluted h) \<subseteq> set (polluted h') \<and> (keys_lost h \<longrightarrow> keys_lost h')"
  using group_rule_cases [OF assms] by auto

lemma group_rules_host:
  assumes "group_rules (h, g) rs = Inr (h', g')"
  shows "set (polluted h) \<subseteq> set (polluted h') \<and> (keys_lost h \<longrightarrow> keys_lost h')"
  using assms
proof (induction rs arbitrary: h g)
  case Nil
  then show ?case by simp
next
  case (Cons r rs)
  from Cons.prems obtain h1 g1 where
    a: "group_rule (h, g) r = Inr (h1, g1)" and b: "group_rules (h1, g1) rs = Inr (h', g')"
    by (auto split: sum.splits)
  from group_rule_host [OF a] Cons.IH [OF b] show ?case by auto
qed

lemma fresh_host_eq: "polluted h = [] \<Longrightarrow> \<not> keys_lost h \<Longrightarrow> h = fresh_host"
  by (cases h) (simp add: fresh_host_def)

lemma group_and_filter_fresh:
  assumes "group_and_filter h rs usedClasses = Inr (fresh_host, g)"
  shows "h = fresh_host"
proof -
  from group_and_filter_Inr [OF assms] obtain g0 where
    "group_rules (h, []) rs = Inr (fresh_host, g0)" by blast
  from group_rules_host [OF this] show ?thesis
    by (intro fresh_host_eq) (auto simp: fresh_host_def)
qed

text \<open>The output of a run that ends in the untouched host: the blocks it appended.\<close>

lemma media_blocks_form:
  assumes "media_blocks usedClasses (h, out0) ms = Inr (fresh_host, out)"
  shows "h = fresh_host \<and>
         (\<exists>bs. out = out0 @ concat (map (\<lambda>(q, w). media_text q w) bs)
            \<and> (\<forall>b\<in>set bs. \<exists>m\<in>set ms. \<exists>mg. fst b = query m \<and> snd b = write_groups mg
                   \<and> own_keys mg \<noteq> []
                   \<and> group_and_filter fresh_host (rules (parseCSSRules (content m))) usedClasses
                       = Inr (fresh_host, mg)))"
  using assms
proof (induction ms arbitrary: h out0)
  case Nil
  then have "h = fresh_host" "out = out0 @ concat (map (\<lambda>(q, w). media_text q w) [])" by simp_all
  then show ?case by (metis empty_iff list.set(1))
next
  case (Cons m ms)
  from Cons.prems obtain h1 out1 where
    a: "media_block usedClasses (h, out0) m = Inr (h1, out1)"
    and b: "media_blocks usedClasses (h1, out1) ms = Inr (fresh_host, out)"
    by (auto split: sum.splits)
  from Cons.IH [OF b] obtain bs where h1: "h1 = fresh_host"
    and out: "out = out1 @ concat (map (\<lambda>(q, w). media_text q w) bs)"
    and bs: "\<forall>b\<in>set bs. \<exists>m\<in>set ms. \<exists>mg. fst b = query m \<and> snd b = write_groups mg
                   \<and> own_keys mg \<noteq> []
                   \<and> group_and_filter fresh_host (rules (parseCSSRules (content m))) usedClasses
                       = Inr (fresh_host, mg)"
    by blast
  from media_block_Inr [OF a] obtain mg where
    gf: "group_and_filter h (rules (parseCSSRules (content m))) usedClasses = Inr (h1, mg)"
    and o1: "out1 = (if own_keys mg = [] then out0
                   else out0 @ ''@media '' @ query m @ ''{'' @ write_groups mg @ ''}'')"
    by blast
  from group_and_filter_fresh [OF gf [unfolded h1]] have h: "h = fresh_host" .
  define bs' where "bs' = (if own_keys mg = [] then bs else (query m, write_groups mg) # bs)"
  have "out = out0 @ concat (map (\<lambda>(q, w). media_text q w) bs')"
    using out o1 by (simp add: bs'_def media_text_def)
  moreover have "\<forall>b\<in>set bs'. \<exists>m'\<in>set (m # ms). \<exists>mg. fst b = query m' \<and> snd b = write_groups mg
                   \<and> own_keys mg \<noteq> []
                   \<and> group_and_filter fresh_host (rules (parseCSSRules (content m'))) usedClasses
                       = Inr (fresh_host, mg)"
  proof
    fix b assume "b \<in> set bs'"
    then consider "b \<in> set bs" | "own_keys mg \<noteq> []" "b = (query m, write_groups mg)"
      by (auto simp: bs'_def split: if_splits)
    then show "\<exists>m'\<in>set (m # ms). \<exists>mg. fst b = query m' \<and> snd b = write_groups mg
                   \<and> own_keys mg \<noteq> []
                   \<and> group_and_filter fresh_host (rules (parseCSSRules (content m'))) usedClasses
                       = Inr (fresh_host, mg)"
    proof cases
      case 1
      with bs show ?thesis by auto
    next
      case 2
      with gf h h1 show ?thesis by auto
    qed
  qed
  ultimately show ?case using h by blast
qed

subsection \<open>The second pass\<close>

lemma own_keys_rebuilt:
  "own_keys (map (\<lambda>(k, ps). (k, ordered ps)) (ordered g)) = own_keys g"
  by (rule own_keys_idem) (simp add: ordered_map comp_def)

lemma regroup_rules:
  assumes wf: "wf_groups g"
    and keep: "\<forall>used. usedClasses = Some used \<longrightarrow> (\<forall>e\<in>set g. \<not> droppable used (fst e))"
  shows "group_and_filter fresh_host
           (map (\<lambda>(k, ps). \<lparr>selector = k, declarations = write_props ps\<rparr>) (ordered g)) usedClasses
           = Inr (fresh_host, map (\<lambda>(k, ps). (k, ordered ps)) (ordered g))"
proof -
  define g2 where "g2 = map (\<lambda>(k, ps). (k, ordered ps)) (ordered g)"
  have d: "distinct (map fst g)" using wf by (simp add: wf_groups_def)
  have so: "set (ordered g) = set g" using d by (rule set_ordered)
  have "distinct (map fst ([] :: groups) @ map fst (ordered g))"
    using d by (simp add: keys_ordered distinct_own_keys)
  moreover have "\<forall>e\<in>set (ordered g). fst e \<noteq> ''__proto__'' \<and> fst e \<notin> set proto_methods \<and> wf_props (snd e)"
    using wf so by (auto simp: wf_groups_def)
  ultimately have gr: "group_rules (fresh_host, [])
           (map (\<lambda>(k, ps). \<lparr>selector = k, declarations = write_props ps\<rparr>) (ordered g))
           = Inr (fresh_host, g2)"
    using group_written [of fresh_host "[]" "ordered g"] by (simp add: fresh_host_def g2_def)
  have keys2: "fst ` set g2 = fst ` set g"
    using so by (force simp: g2_def)
  have du: "drop_unused usedClasses g2 = g2"
  proof (cases usedClasses)
    case None
    then show ?thesis by (simp add: drop_unused_def)
  next
    case (Some used)
    with keep keys2 have "\<forall>e\<in>set g2. \<not> droppable used (fst e)" by force
    then show ?thesis
      by (simp add: Some drop_unused_filter filter_id_conv split_def)
  qed
  show ?thesis
    unfolding g2_def [symmetric] by (simp add: group_and_filter_def gr du) (simp add: fresh_host_def)
qed

lemma regroup:
  assumes "reads_back usedClasses g"
  shows "\<exists>g2. group_and_filter fresh_host (rules (parseCSSRules (write_groups g))) usedClasses
                 = Inr (fresh_host, g2)
            \<and> write_groups g2 = write_groups g \<and> own_keys g2 = own_keys g"
proof -
  from assms have wf: "wf_groups g" and ne: "\<forall>e\<in>set g. snd e \<noteq> []"
    and nc: "\<not> includesStr (write_groups g) ''/*''"
    and nm: "\<not> includesStr (write_groups g) ''@media''"
    and keep: "\<forall>used. usedClasses = Some used \<longrightarrow> (\<forall>e\<in>set g. \<not> droppable used (fst e))"
    by (simp_all add: reads_back_def)
  have "rules (parseCSSRules (write_groups g))
          = map (\<lambda>(k, ps). \<lparr>selector = k, declarations = write_props ps\<rparr>) (ordered g)"
    using parse_written [OF wf ne nc nm] by simp
  with regroup_rules [OF wf keep] write_groups_rebuilt [of g] own_keys_rebuilt [of g]
  show ?thesis by simp
qed

lemma media_blocks_rewrite:
  assumes "\<forall>b\<in>set bs. \<exists>mg. snd b = write_groups mg \<and> own_keys mg \<noteq> [] \<and> reads_back usedClasses mg"
  shows "media_blocks usedClasses (fresh_host, acc) (map (\<lambda>(q, w). \<lparr>query = q, content = w\<rparr>) bs)
           = Inr (fresh_host, acc @ concat (map (\<lambda>(q, w). media_text q w) bs))"
  using assms
proof (induction bs arbitrary: acc)
  case Nil
  then show ?case by simp
next
  case (Cons b bs)
  obtain q w where b: "b = (q, w)" by (cases b)
  from Cons.prems b obtain mg where w: "w = write_groups mg" and k: "own_keys mg \<noteq> []"
    and rb: "reads_back usedClasses mg" by auto
  from regroup [OF rb] obtain g2 where
    gf: "group_and_filter fresh_host (rules (parseCSSRules w)) usedClasses = Inr (fresh_host, g2)"
    and w2: "write_groups g2 = w" and k2: "own_keys g2 = own_keys mg"
    unfolding w by blast
  have "media_block usedClasses (fresh_host, acc) \<lparr>query = q, content = w\<rparr>
          = Inr (fresh_host, acc @ media_text q w)"
    using k by (simp add: media_block_def gf w2 k2 media_text_def)
  moreover have "media_blocks usedClasses (fresh_host, acc @ media_text q w)
                   (map (\<lambda>(q, w). \<lparr>query = q, content = w\<rparr>) bs)
           = Inr (fresh_host, (acc @ media_text q w) @ concat (map (\<lambda>(q, w). media_text q w) bs))"
    using Cons.prems by (intro Cons.IH) simp
  ultimately show ?case by (simp add: b)
qed

lemma parse_output:
  assumes wf: "wf_groups g" and ne: "\<forall>e\<in>set g. snd e \<noteq> []"
    and nm: "\<not> includesStr (write_groups g) ''@media''"
    and out: "out = write_groups g @ concat (map (\<lambda>(q, w). media_text q w) bs)"
    and nc: "\<not> includesStr out ''/*''"
    and bs: "\<forall>b\<in>set bs. trim (fst b) = fst b \<and> CHR ''{'' \<notin> set (fst b)
                     \<and> \<not> includesStr (snd b) ''@media''"
  shows "parseCSSRules out =
           \<lparr>rules = map (\<lambda>(k, ps). \<lparr>selector = k, declarations = write_props ps\<rparr>) (ordered g),
            mediaRules = map (\<lambda>(q, w). \<lparr>query = q, content = w\<rparr>) bs\<rparr>"
proof -
  have t1: "remove_all commentRegex out = out"
    using nc by (rule remove_comments_id)
  have "write_groups g = [] \<or> last (write_groups g) = CHR ''}''"
    using write_groups_last [of g] write_groups_empty [of g] by blast
  from media_scan_output [OF nm this bs] have
    t2: "remove_all mediaRegex out = write_groups g"
    and t3: "map (\<lambda>(pre, c). (trim (cap c 1), cap c 2)) (fst (rx_scan mediaRegex out)) = bs"
    unfolding out by simp_all
  have "map (\<lambda>(pre, c). \<lparr>query = trim (cap c 1), content = cap c 2\<rparr>) (fst (rx_scan mediaRegex out))
          = map (\<lambda>(q, w). \<lparr>query = q, content = w\<rparr>)
              (map (\<lambda>(pre, c). (trim (cap c 1), cap c 2)) (fst (rx_scan mediaRegex out)))"
    by (simp add: comp_def split_def)
  then have t4: "map (\<lambda>(pre, c). \<lparr>query = trim (cap c 1), content = cap c 2\<rparr>) (fst (rx_scan mediaRegex out))
          = map (\<lambda>(q, w). \<lparr>query = q, content = w\<rparr>) bs"
    by (simp only: t3)
  show ?thesis
    unfolding parseCSSRules_def Let_def t1 t2 t4 rules_written [OF wf ne] by simp
qed

lemma first_pass_reads_back:
  assumes gf: "group_and_filter fresh_host (rules (parseCSSRules t)) usedClasses = Inr (h, g)"
    and sub: "out = u @ write_groups g @ v"
    and nc: "\<not> includesStr out ''/*''"
    and ne: "\<not> includesStr out ''{}''"
    and nm: "\<not> includesStr (write_groups g) ''@media''"
  shows "reads_back usedClasses g"
proof -
  from group_and_filter_Inr [OF gf] obtain g0 where
    g0: "group_rules (fresh_host, []) (rules (parseCSSRules t)) = Inr (h, g0)"
    and g: "g = drop_unused usedClasses g0" by blast
  have "wf_groups []" by (simp add: wf_groups_def)
  then have "wf_groups g0"
    using group_rules_wf [OF g0] parsed_rules_wf by blast
  then have wf: "wf_groups g"
    unfolding g by (rule wf_groups_drop_unused)
  then have d: "distinct (map fst g)" by (simp add: wf_groups_def)
  have "\<not> includesStr (write_groups g) ''{}''"
    using ne includesStr_sub [of "write_groups g" "''{}''" u v] unfolding sub by blast
  with d have full: "\<forall>e\<in>set g. snd e \<noteq> []" by (rule no_empty_group)
  have nc': "\<not> includesStr (write_groups g) ''/*''"
    using nc includesStr_sub [of "write_groups g" "''/*''" u v] unfolding sub by blast
  have keep: "\<forall>used. usedClasses = Some used \<longrightarrow> (\<forall>e\<in>set g. \<not> droppable used (fst e))"
    by (auto simp: g drop_unused_filter)
  from wf full nc' nm keep show ?thesis by (simp add: reads_back_def)
qed

text \<open>
  Claim C2, as amended.  Let the optimizer return \<open>out\<close> for a CSS text and leave the
  built-in objects of the page untouched.  Let none of the texts of groups that it wrote,
  the top-level groups and the groups of every media block, contain \<^verbatim>\<open>@media\<close>, so that
  \<^verbatim>\<open>@media\<close> is in \<open>out\<close> only where a media block begins or in a media query.  If \<open>out\<close>
  contains neither the comment opener \<^verbatim>\<open>/*\<close> nor an empty group \<^verbatim>\<open>{}\<close>, then the optimizer,
  with the same used classes, returns \<open>out\<close> for \<open>out\<close>.
\<close>

theorem c2_second_pass_fixed_point:
  assumes first: "optimizeCSS_in fresh_host css usedClasses = Inr (fresh_host, out)"
    and nm: "\<forall>t\<in>set (group_texts css usedClasses). \<not> includesStr t ''@media''"
    and nc: "\<not> includesStr out ''/*''"
    and ne: "\<not> includesStr out ''{}''"
  shows "optimizeCSS out usedClasses = Inr out"
proof -
  define p where "p = parseCSSRules css"
  from first obtain h1 g where
    a: "group_and_filter fresh_host (rules p) usedClasses = Inr (h1, g)"
    and b: "media_blocks usedClasses (h1, write_groups g) (mediaRules p) = Inr (fresh_host, out)"
    by (auto simp: optimizeCSS_in_def Let_def p_def split: sum.splits)
  from media_blocks_form [OF b] obtain bs where h1: "h1 = fresh_host"
    and out: "out = write_groups g @ concat (map (\<lambda>(q, w). media_text q w) bs)"
    and bs: "\<forall>b\<in>set bs. \<exists>m\<in>set (mediaRules p). \<exists>mg. fst b = query m \<and> snd b = write_groups mg
                   \<and> own_keys mg \<noteq> []
                   \<and> group_and_filter fresh_host (rules (parseCSSRules (content m))) usedClasses
                       = Inr (fresh_host, mg)"
    by blast
  \<comment> \<open>the top-level groups\<close>
  have "written (rules p) usedClasses = write_groups g"
    by (simp add: written_def a)
  with nm have nmT: "\<not> includesStr (write_groups g) ''@media''"
    by (simp add: group_texts_def p_def)
  have "out = [] @ write_groups g @ concat (map (\<lambda>(q, w). media_text q w) bs)"
    using out by simp
  from first_pass_reads_back [OF a [unfolded p_def] this nc ne nmT]
  have rbT: "reads_back usedClasses g" .
  then have wf: "wf_groups g" and full: "\<forall>e\<in>set g. snd e \<noteq> []"
    and keep: "\<forall>used. usedClasses = Some used \<longrightarrow> (\<forall>e\<in>set g. \<not> droppable used (fst e))"
    by (simp_all add: reads_back_def)
  \<comment> \<open>the groups of the media blocks\<close>
  have blocks: "\<forall>b\<in>set bs. trim (fst b) = fst b \<and> CHR ''{'' \<notin> set (fst b)
                  \<and> \<not> includesStr (snd b) ''@media''
                  \<and> (\<exists>mg. snd b = write_groups mg \<and> own_keys mg \<noteq> [] \<and> reads_back usedClasses mg)"
  proof
    fix b assume b: "b \<in> set bs"
    with bs obtain m mg where m: "m \<in> set (mediaRules p)"
      and q: "fst b = query m" and w: "snd b = write_groups mg" and k: "own_keys mg \<noteq> []"
      and gf: "group_and_filter fresh_host (rules (parseCSSRules (content m))) usedClasses
                 = Inr (fresh_host, mg)"
      by blast
    have "written (rules (parseCSSRules (content m))) usedClasses = write_groups mg"
      by (simp add: written_def gf)
    with nm m have nmW: "\<not> includesStr (write_groups mg) ''@media''"
      by (auto simp: group_texts_def p_def)
    from media_text_part [OF b] obtain u v where
      "concat (map (\<lambda>(q, w). media_text q w) bs) = u @ snd b @ v" by blast
    then have "out = (write_groups g @ u) @ write_groups mg @ v"
      using out w by simp
    from first_pass_reads_back [OF gf this nc ne nmW] have "reads_back usedClasses mg" .
    with media_query_wf [OF m [unfolded p_def]] q w k nmW
    show "trim (fst b) = fst b \<and> CHR ''{'' \<notin> set (fst b)
                  \<and> \<not> includesStr (snd b) ''@media''
                  \<and> (\<exists>mg. snd b = write_groups mg \<and> own_keys mg \<noteq> [] \<and> reads_back usedClasses mg)"
      by auto
  qed
  \<comment> \<open>the second pass\<close>
  have parse: "parseCSSRules out =
           \<lparr>rules = map (\<lambda>(k, ps). \<lparr>selector = k, declarations = write_props ps\<rparr>) (ordered g),
            mediaRules = map (\<lambda>(q, w). \<lparr>query = q, content = w\<rparr>) bs\<rparr>"
    using wf full nmT out nc blocks by (intro parse_output) auto
  define g2 where "g2 = map (\<lambda>(k, ps). (k, ordered ps)) (ordered g)"
  have gf2: "group_and_filter fresh_host (rules (parseCSSRules out)) usedClasses = Inr (fresh_host, g2)"
    using regroup_rules [OF wf keep] by (simp add: parse g2_def)
  have w2: "write_groups g2 = write_groups g"
    unfolding g2_def by (rule write_groups_rebuilt)
  have "media_blocks usedClasses (fresh_host, write_groups g)
          (map (\<lambda>(q, w). \<lparr>query = q, content = w\<rparr>) bs)
          = Inr (fresh_host, write_groups g @ concat (map (\<lambda>(q, w). media_text q w) bs))"
    using blocks by (intro media_blocks_rewrite) auto
  moreover have "mediaRules (parseCSSRules out) = map (\<lambda>(q, w). \<lparr>query = q, content = w\<rparr>) bs"
    by (simp add: parse)
  ultimately have "media_blocks usedClasses (fresh_host, write_groups g) (mediaRules (parseCSSRules out))
          = Inr (fresh_host, out)"
    by (simp only: out [symmetric])
  then have "optimizeCSS_in fresh_host out usedClasses = Inr (fresh_host, out)"
    by (simp add: optimizeCSS_in_def Let_def gf2 w2)
  then show ?thesis by (simp add: optimizeCSS_def)
qed

text \<open>
  The hypotheses hold for a text with a duplicate selector, a comment, an unused class and
  a media block.
\<close>

theorem c2_second_pass_fixed_point_witness:
  "optimizeCSS_in fresh_host
     ''.a { color : red ; } /* note */ .b{x:1} .a{color:blue} @media (max-width:600px){.a{x:2}.a{y:3}.b{z:4}}''
     (Some {''a''})
     = Inr (fresh_host, ''.a{color:blue;}@media (max-width:600px){.a{x:2;y:3;}}'')
   \<and> group_texts
       ''.a { color : red ; } /* note */ .b{x:1} .a{color:blue} @media (max-width:600px){.a{x:2}.a{y:3}.b{z:4}}''
       (Some {''a''})
     = [''.a{color:blue;}'', ''.a{x:2;y:3;}'']
   \<and> optimizeCSS ''.a{color:blue;}@media (max-width:600px){.a{x:2;y:3;}}'' (Some {''a''})
     = Inr ''.a{color:blue;}@media (max-width:600px){.a{x:2;y:3;}}''"
proof -
  define css where
    "css = ''.a { color : red ; } /* note */ .b{x:1} .a{color:blue} @media (max-width:600px){.a{x:2}.a{y:3}.b{z:4}}''"
  define out where "out = ''.a{color:blue;}@media (max-width:600px){.a{x:2;y:3;}}''"
  have a: "optimizeCSS_in fresh_host css (Some {''a''}) = Inr (fresh_host, out)"
    unfolding css_def out_def by code_simp
  have gt: "group_texts css (Some {''a''}) = [''.a{color:blue;}'', ''.a{x:2;y:3;}'']"
    unfolding css_def by code_simp
  have n1: "\<not> includesStr ''.a{color:blue;}'' ''@media''"
    by code_simp
  have n2: "\<not> includesStr ''.a{x:2;y:3;}'' ''@media''"
    by code_simp
  have b: "\<forall>t\<in>set (group_texts css (Some {''a''})). \<not> includesStr t ''@media''"
    unfolding gt using n1 n2 by simp
  have c: "\<not> includesStr out ''/*''"
    unfolding out_def by code_simp
  have d: "\<not> includesStr out ''{}''"
    unfolding out_def by code_simp
  from c2_second_pass_fixed_point [OF a b c d] a gt show ?thesis
    unfolding css_def out_def by simp
qed

text \<open>
  The claim as stated fails, in five ways.  A rule without a valid declaration is
  written as an empty group, which the parser does not read as a rule.  A comment
  opener and a comment closer that the first pass left in two values make a comment for
  the second pass.  A text with \<^verbatim>\<open>@media\<close> that the first pass read as a top-level rule
  is written such that the second pass reads a media block.  A property \<^verbatim>\<open>@media b\<close> in
  a media block is written such that the second pass reads a media block inside the
  block, and loses the rules.  And a first pass that puts the name \<open>x\<close> on
  \<^verbatim>\<open>Object.prototype\<close> leaves a page in which the second pass throws.
\<close>

theorem c2_idempotence_counterexample:
  "optimizeCSS ''a{x:}'' None = Inr ''a{}'' \<and> optimizeCSS ''a{}'' None = Inr []
   \<and> optimizeCSS ''a{x://**/*y}b{z:*/w}'' None = Inr ''a{x:/*y;}b{z:*/w;}''
   \<and> optimizeCSS ''a{x:/*y;}b{z:*/w;}'' None = Inr ''a{x:w;}''
   \<and> optimizeCSS ''@media q{a{x:y}}b{z:w}c'' None = Inr ''@media q{a{x:y;}}b{z:w;}''
   \<and> optimizeCSS ''@media q{a{x:y;}}b{z:w;}'' None = Inr ''@media q{a{x:y;}}''
   \<and> optimizeCSS ''@media q{a{@media b:c}p{d:e}junk}'' None = Inr ''@media q{a{@media b:c;}p{d:e;}}''
   \<and> optimizeCSS ''@media q{a{@media b:c;}p{d:e;}}'' None = Inr []
   \<and> optimizeCSS_in fresh_host ''x{c:d}__proto__{x:b}'' None
       = Inr (\<lparr>polluted = [''x''], keys_lost = False\<rparr>, ''x{c:d;}'')
   \<and> optimizeCSS_in \<lparr>polluted = [''x''], keys_lost = False\<rparr> ''x{c:d;}'' None = Inl TypeError"
  by code_simp

subsection \<open>Selectors without a dot\<close>

lemma classToken_needs_dot:
  "rx_run classTokenRegex t c = Some r \<Longrightarrow> CHR ''.'' \<in> set t"
  by (cases t) (auto simp: classTokenRegex_def split: if_splits)

lemma no_dot_no_class_token: "CHR ''.'' \<notin> set sel \<Longrightarrow> class_tokens sel = []"
  using rx_search_None [of classTokenRegex "CHR ''.''" sel] classToken_needs_dot
  by (simp add: class_tokens_def rx_scan.simps)

subsection \<open>Selector texts that are members of the prototype\<close>

lemma prototype_member_examples:
  "optimizeCSS ''toString{color:red}'' None = Inr []"
  "optimizeCSS ''toString{name:x}'' None = Inl TypeError"
  "optimizeCSS ''constructor{keys:x}'' None = Inl TypeError"
  "optimizeCSS ''__proto__{a:b}a{c:d}'' None = Inl TypeError"
  "optimizeCSS ''__proto__{a:b}a{__proto__:x}'' None = Inr []"
  "optimizeCSS ''__proto__{return:x}a{b:c}'' None = Inl TypeError"
  "optimizeCSS ''__proto__{return:x}a{junk}'' None = Inr ''a{}''"
  "optimizeCSS ''a{c:d}__proto__{a:b}a{e:f}'' None = Inr ''a{c:d;e:f;}''"
  "optimizeCSS_in fresh_host ''__proto__{a:b}'' None = Inr (\<lparr>polluted = [''a''], keys_lost = False\<rparr>, [])"
  by code_simp+

end
